theory Spec2Isabelle
  imports Main
begin

section \<open>Data model\<close>

text \<open>
  The Go source works on \<^verbatim>\<open>[]rune\<close>, the code points decoded from the input bytes by
  \<^verbatim>\<open>[]rune(string(bytes))\<close>. A rune is modelled by its code point, a natural
  number. A Go string is only ever built here by appending \<^verbatim>\<open>string(c)\<close> for runes
  \<open>c\<close> of the input (or the literals \<^verbatim>\<open>"."\<close> and \<^verbatim>\<open>" "\<close>), so it is
  modelled by the list of the runes appended; \<^verbatim>\<open>len(value) > 0\<close> is then
  \<open>value \<noteq> []\<close>.
\<close>

type_synonym rune = nat
type_synonym gostring = "rune list"

abbreviation NL :: rune where "NL \<equiv> 10"          \<comment> \<open>\<^verbatim>\<open>'\n'\<close>\<close>
abbreviation CR :: rune where "CR \<equiv> 13"          \<comment> \<open>\<^verbatim>\<open>'\r'\<close>\<close>
abbreviation TAB :: rune where "TAB \<equiv> 9"         \<comment> \<open>\<^verbatim>\<open>'\t'\<close>\<close>
abbreviation BS :: rune where "BS \<equiv> 8"           \<comment> \<open>\<^verbatim>\<open>'\b'\<close>\<close>
abbreviation SPACE :: rune where "SPACE \<equiv> 32"     \<comment> \<open>\<^verbatim>\<open>' '\<close>\<close>
abbreviation DQUOTE :: rune where "DQUOTE \<equiv> 34"   \<comment> \<open>the double quote\<close>
abbreviation HASH :: rune where "HASH \<equiv> 35"       \<comment> \<open>\<^verbatim>\<open>'#'\<close>\<close>
abbreviation MINUS :: rune where "MINUS \<equiv> 45"     \<comment> \<open>\<^verbatim>\<open>'-'\<close>\<close>
abbreviation DOT :: rune where "DOT \<equiv> 46"         \<comment> \<open>\<^verbatim>\<open>'.'\<close>\<close>
abbreviation SEMI :: rune where "SEMI \<equiv> 59"       \<comment> \<open>\<^verbatim>\<open>';'\<close>\<close>
abbreviation EQUALS :: rune where "EQUALS \<equiv> 61"   \<comment> \<open>\<^verbatim>\<open>'='\<close>\<close>
abbreviation LBRACK :: rune where "LBRACK \<equiv> 91"   \<comment> \<open>\<^verbatim>\<open>'['\<close>\<close>
abbreviation BSLASH :: rune where "BSLASH \<equiv> 92"   \<comment> \<open>the backslash\<close>
abbreviation RBRACK :: rune where "RBRACK \<equiv> 93"   \<comment> \<open>\<^verbatim>\<open>']'\<close>\<close>

text \<open>The parser struct: remaining runes, line counter, end-of-input flag.\<close>

record parser =
  runes :: "rune list"
  linenr :: nat
  eof :: bool

text \<open>
  Modelled from the spec: the error values \<^verbatim>\<open>ErrInvalidKeyChar\<close>, ... used by
  \<^verbatim>\<open>goconfig.go\<close> are declared in a file that is not part of the sources at hand;
  section 7 of the specification lists them as eight mutually exclusive kinds.
\<close>

datatype error =
    ErrInvalidKeyChar
  | ErrUnexpectedEOF
  | ErrInvalidSectionChar
  | ErrSectionNewLine
  | ErrMissingStartQuote
  | ErrMissingClosingBracket
  | ErrInvalidEscapeSequence
  | ErrUnfinishedQuote

section \<open>Classifiers\<close>

text \<open>
  The classifiers delegate to Go's \<^verbatim>\<open>unicode\<close> package. The letter, number and
  lower-case tables of that package are large and outside the repository, so they are a
  parameter of the model: every function below that classifies runes takes the tables it
  consults.
\<close>

record unicode =
  IsLetter :: "rune \<Rightarrow> bool"
  IsNumber :: "rune \<Rightarrow> bool"
  ToLower :: "rune \<Rightarrow> rune"

text \<open>
  \<^verbatim>\<open>unicode.IsSpace\<close> is a small fixed set (Unicode's White Space property): in
  Latin-1 the runes \<^verbatim>\<open>'\t', '\n', '\v', '\f', '\r', ' '\<close>, U+0085 and U+00A0; beyond it
  U+1680, U+2000..U+200A, U+2028, U+2029, U+202F, U+205F and U+3000.
\<close>

definition IsSpace :: "rune \<Rightarrow> bool" where
  "IsSpace c \<longleftrightarrow>
     (9 \<le> c \<and> c \<le> 13) \<or> c = 32 \<or> c = 133 \<or> c = 160 \<or> c = 5760 \<or>
     (8192 \<le> c \<and> c \<le> 8202) \<or> c = 8232 \<or> c = 8233 \<or> c = 8239 \<or> c = 8287 \<or> c = 12288"

definition lower :: "unicode \<Rightarrow> rune \<Rightarrow> rune" where
  "lower T c = ToLower T c"

definition isspace :: "rune \<Rightarrow> bool" where
  "isspace c = IsSpace c"

definition isalpha :: "unicode \<Rightarrow> rune \<Rightarrow> bool" where
  "isalpha T c = IsLetter T c"

definition isnum :: "unicode \<Rightarrow> rune \<Rightarrow> bool" where
  "isnum T c = IsNumber T c"

definition isalnum :: "unicode \<Rightarrow> rune \<Rightarrow> bool" where
  "isalnum T c \<longleftrightarrow> isalpha T c \<or> isnum T c"

definition iskeychar :: "unicode \<Rightarrow> rune \<Rightarrow> bool" where
  "iskeychar T c \<longleftrightarrow> isalnum T c \<or> c = MINUS"

text \<open>
  The tables restricted to ASCII, where they agree with Go's: letters \<^verbatim>\<open>A-Z a-z\<close>,
  numbers \<^verbatim>\<open>0-9\<close>, and \<^verbatim>\<open>A-Z\<close> lower-cased by adding 32. They are used to run
  the parser on concrete ASCII inputs.
\<close>

definition unicode_ascii :: unicode where
  "unicode_ascii =
     \<lparr> IsLetter = (\<lambda>c. (65 \<le> c \<and> c \<le> 90) \<or> (97 \<le> c \<and> c \<le> 122)),
       IsNumber = (\<lambda>c. 48 \<le> c \<and> c \<le> 57),
       ToLower = (\<lambda>c. if 65 \<le> c \<and> c \<le> 90 then c + 32 else c) \<rparr>"

text \<open>An ASCII string literal as the runes Go decodes it to.\<close>

definition ascii :: "string \<Rightarrow> rune list" where
  "ascii s = map of_char s"

section \<open>The cursor\<close>

text \<open>
  \<^verbatim>\<open>nextRune\<close>, statement by statement. The second test for an empty slice is kept as
  the source has it; \<open>tl\<close> stands for \<^verbatim>\<open>cf.runes[1:]\<close>, which is only evaluated on a
  non-empty slice (the lemmas below cover every input without that branch: the second
  test never succeeds).
\<close>

definition nextRune :: "parser \<Rightarrow> rune \<times> parser" where
  "nextRune cf =
     (if length (runes cf) = 0 then (NL, cf\<lparr>eof := True\<rparr>)
      else
        let c = hd (runes cf);
            (c, cf) = (if c = CR \<and> length (runes cf) > 1 \<and> runes cf ! 1 = NL
                       then (NL, cf\<lparr>runes := tl (runes cf)\<rparr>) else (c, cf));
            cf = (if c = NL then cf\<lparr>linenr := linenr cf + 1\<rparr> else cf);
            (c, cf) = (if length (runes cf) = 0
                       then (NL, cf\<lparr>eof := True, linenr := linenr cf + 1\<rparr>) else (c, cf))
        in (c, cf\<lparr>runes := tl (runes cf)\<rparr>))"

lemma nextRune_Nil:
  "runes cf = [] \<Longrightarrow> nextRune cf = (NL, cf\<lparr>eof := True\<rparr>)"
  by (simp add: nextRune_def)

lemma nextRune_CRLF:
  "runes cf = CR # NL # rest \<Longrightarrow>
   nextRune cf = (NL, cf\<lparr>runes := rest, linenr := linenr cf + 1\<rparr>)"
  by (simp add: nextRune_def)

lemma nextRune_NL:
  "runes cf = NL # rest \<Longrightarrow>
   nextRune cf = (NL, cf\<lparr>runes := rest, linenr := linenr cf + 1\<rparr>)"
  by (simp add: nextRune_def)

lemma nextRune_CR:
  "runes cf = CR # rest \<Longrightarrow> (rest = [] \<or> hd rest \<noteq> NL) \<Longrightarrow>
   nextRune cf = (CR, cf\<lparr>runes := rest\<rparr>)"
  by (cases rest) (auto simp add: nextRune_def)

lemma nextRune_other:
  "runes cf = c # rest \<Longrightarrow> c \<noteq> NL \<Longrightarrow> c \<noteq> CR \<Longrightarrow>
   nextRune cf = (c, cf\<lparr>runes := rest\<rparr>)"
  by (simp add: nextRune_def)

lemma nextRune_length:
  "nextRune cf = (c, cf') \<Longrightarrow> length (runes cf') \<le> length (runes cf)"
  by (cases "runes cf") (auto simp add: nextRune_def Let_def split: if_splits)

lemma nextRune_consumes:
  "nextRune cf = (c, cf') \<Longrightarrow> runes cf \<noteq> [] \<Longrightarrow> length (runes cf') < length (runes cf)"
  by (cases "runes cf") (auto simp add: nextRune_def Let_def split: if_splits)

lemma nextRune_not_eof:
  "nextRune cf = (c, cf') \<Longrightarrow> \<not> eof cf' \<Longrightarrow> runes cf \<noteq> []"
  by (auto simp add: nextRune_def)

lemma nextRune_not_NL:
  "nextRune cf = (c, cf') \<Longrightarrow> c \<noteq> NL \<Longrightarrow> runes cf \<noteq> []"
  by (auto simp add: nextRune_def)

section \<open>The section parser\<close>

text \<open>
  \<^verbatim>\<open>getExtendedSectionKey\<close> has two loops. The first skips the whitespace between the
  base name and the opening quote; it is entered with the rune \<open>c\<close> that
  \<^verbatim>\<open>getSectionKey\<close> has just read, and leaves with the first rune that is not
  whitespace. The line counter is an unsigned integer that starts at 1, never decreases
  otherwise, and is decremented at most once, immediately before an error is returned:
  the subtraction on \<open>nat\<close> never truncates.
\<close>

function getExtendedSectionKey_skip :: "rune \<Rightarrow> parser \<Rightarrow> (error + rune) \<times> parser" where
  "getExtendedSectionKey_skip c cf =
     (if c = NL then (Inl ErrSectionNewLine, cf\<lparr>linenr := linenr cf - 1\<rparr>)
      else
        let (c', cf') = nextRune cf in
        if \<not> isspace c' then (Inr c', cf')
        else getExtendedSectionKey_skip c' cf')"
  by pat_completeness auto

lemma getExtendedSectionKey_skip_total: "All getExtendedSectionKey_skip_dom"
  by (relation "measure (\<lambda>(c, cf). 2 * length (runes cf) + (if c = NL then 0 else 1))")
     (auto simp add: nextRune_def Let_def split: if_splits)

termination getExtendedSectionKey_skip
  by (rule getExtendedSectionKey_skip_total)

text \<open>The second loop reads the quoted subsection up to the closing quote.\<close>

function getExtendedSectionKey_quoted :: "gostring \<Rightarrow> parser \<Rightarrow> (error + gostring) \<times> parser" where
  "getExtendedSectionKey_quoted name cf =
     (let (c, cf1) = nextRune cf in
      if c = NL then (Inl ErrSectionNewLine, cf1\<lparr>linenr := linenr cf1 - 1\<rparr>)
      else if c = DQUOTE then (Inr name, cf1)
      else if c = BSLASH then
        (let (c2, cf2) = nextRune cf1 in
         if c2 = NL then (Inl ErrSectionNewLine, cf2\<lparr>linenr := linenr cf2 - 1\<rparr>)
         else getExtendedSectionKey_quoted (name @ [c2]) cf2)
      else getExtendedSectionKey_quoted (name @ [c]) cf1)"
  by pat_completeness auto

lemma getExtendedSectionKey_quoted_total: "All getExtendedSectionKey_quoted_dom"
proof (relation "measure (\<lambda>(name, cf). length (runes cf))", goal_cases)
  case 1
  show ?case by simp
next
  case (2 name cf x c cf1 y c2 cf2)
  then have "length (runes cf1) < length (runes cf)" "length (runes cf2) \<le> length (runes cf1)"
    using nextRune_consumes [of cf c cf1] nextRune_not_NL [of cf c cf1]
      nextRune_length [of cf1 c2 cf2] by auto
  then show ?case by simp
next
  case (3 name cf x c cf1)
  then show ?case
    using nextRune_consumes [of cf c cf1] nextRune_not_NL [of cf c cf1] by auto
qed

termination getExtendedSectionKey_quoted
  by (rule getExtendedSectionKey_quoted_total)

definition getExtendedSectionKey ::
  "gostring \<Rightarrow> rune \<Rightarrow> parser \<Rightarrow> (error + gostring) \<times> parser" where
  "getExtendedSectionKey name c cf =
     (case getExtendedSectionKey_skip c cf of
        (Inl e, cf1) \<Rightarrow> (Inl e, cf1)
      | (Inr c1, cf1) \<Rightarrow>
          if c1 \<noteq> DQUOTE then (Inl ErrMissingStartQuote, cf1)
          else
            (case getExtendedSectionKey_quoted (name @ [DOT]) cf1 of
               (Inl e, cf2) \<Rightarrow> (Inl e, cf2)
             | (Inr name', cf2) \<Rightarrow>
                 let (c3, cf3) = nextRune cf2 in
                 if c3 \<noteq> RBRACK then (Inl ErrMissingClosingBracket, cf3)
                 else (Inr name', cf3)))"

text \<open>The loop of \<^verbatim>\<open>getSectionKey\<close>, with the name accumulated so far.\<close>

function getSectionKey_loop :: "unicode \<Rightarrow> gostring \<Rightarrow> parser \<Rightarrow> (error + gostring) \<times> parser" where
  "getSectionKey_loop T name cf =
     (let (c, cf') = nextRune cf in
      if eof cf' then (Inl ErrUnexpectedEOF, cf')
      else if c = RBRACK then (Inr name, cf')
      else if isspace c then getExtendedSectionKey name c cf'
      else if \<not> iskeychar T c \<and> c \<noteq> DOT then (Inl ErrInvalidSectionChar, cf')
      else getSectionKey_loop T (name @ [lower T c]) cf')"
  by pat_completeness auto

lemma getSectionKey_loop_total: "All getSectionKey_loop_dom"
proof (relation "measure (\<lambda>(T, name, cf). length (runes cf))", goal_cases)
  case 1
  show ?case by simp
next
  case (2 T name cf x c cf')
  then show ?case
    using nextRune_consumes [of cf c cf'] nextRune_not_eof [of cf c cf'] by auto
qed

termination getSectionKey_loop
  by (rule getSectionKey_loop_total)

definition getSectionKey :: "unicode \<Rightarrow> parser \<Rightarrow> (error + gostring) \<times> parser" where
  "getSectionKey T cf = getSectionKey_loop T [] cf"

section \<open>The value parser\<close>

text \<open>The inner loop \<^verbatim>\<open>for space != 0 { value += " "; space-- }\<close>.\<close>

fun flush :: "nat \<Rightarrow> gostring \<Rightarrow> gostring" where
  "flush 0 val = val"
| "flush (Suc space) val = flush space (val @ [SPACE])"

text \<open>
  The loop of \<^verbatim>\<open>parseValue\<close> with its four local variables. After the inner loop
  above has run, \<^verbatim>\<open>space\<close> is 0.
\<close>

function parseValue_loop ::
  "bool \<Rightarrow> bool \<Rightarrow> nat \<Rightarrow> gostring \<Rightarrow> parser \<Rightarrow> (error + gostring) \<times> parser" where
  "parseValue_loop quote comment space val cf =
     (let (c, cf1) = nextRune cf in
      if c = NL then
        (if quote then (Inl ErrUnfinishedQuote, cf1\<lparr>linenr := linenr cf1 - 1\<rparr>)
         else (Inr val, cf1))
      else if comment then parseValue_loop quote comment space val cf1
      else if isspace c \<and> \<not> quote then
        parseValue_loop quote comment (if length val > 0 then space + 1 else space) val cf1
      else if \<not> quote \<and> (c = SEMI \<or> c = HASH) then parseValue_loop quote True space val cf1
      else
        let val = flush space val in
        if c = BSLASH then
          (let (c2, cf2) = nextRune cf1 in
           if c2 = NL then parseValue_loop quote comment 0 val cf2
           else if c2 = 116 then parseValue_loop quote comment 0 (val @ [TAB]) cf2
           else if c2 = 98 then parseValue_loop quote comment 0 (val @ [BS]) cf2
           else if c2 = 110 then parseValue_loop quote comment 0 (val @ [NL]) cf2
           else (Inl ErrInvalidEscapeSequence, cf2))
        else if c = DQUOTE then parseValue_loop (\<not> quote) comment 0 val cf1
        else parseValue_loop quote comment 0 (val @ [c]) cf1)"
  by pat_completeness auto

lemma parseValue_loop_total: "All parseValue_loop_dom"
proof (relation "measure (\<lambda>(quote, comment, space, val, cf). length (runes cf))", goal_cases)
  case 1
  show ?case by simp
next
  case (2 quote comment space val cf x c cf1)
  then show ?case
    using nextRune_consumes [of cf c cf1] nextRune_not_NL [of cf c cf1] by auto
next
  case (3 quote comment space val cf x c cf1)
  then show ?case
    using nextRune_consumes [of cf c cf1] nextRune_not_NL [of cf c cf1] by auto
next
  case (4 quote comment space val cf x c cf1)
  then show ?case
    using nextRune_consumes [of cf c cf1] nextRune_not_NL [of cf c cf1] by auto
next
  case (5 quote comment space val cf x c cf1 val' y c2 cf2)
  then show ?case
    using nextRune_consumes [of cf c cf1] nextRune_not_NL [of cf c cf1]
      nextRune_length [of cf1 c2 cf2] by auto
next
  case (6 quote comment space val cf x c cf1 val' y c2 cf2)
  then show ?case
    using nextRune_consumes [of cf c cf1] nextRune_not_NL [of cf c cf1]
      nextRune_length [of cf1 c2 cf2] by auto
next
  case (7 quote comment space val cf x c cf1 val' y c2 cf2)
  then show ?case
    using nextRune_consumes [of cf c cf1] nextRune_not_NL [of cf c cf1]
      nextRune_length [of cf1 c2 cf2] by auto
next
  case (8 quote comment space val cf x c cf1 val' y c2 cf2)
  then show ?case
    using nextRune_consumes [of cf c cf1] nextRune_not_NL [of cf c cf1]
      nextRune_length [of cf1 c2 cf2] by auto
next
  case (9 quote comment space val cf x c cf1 val')
  then show ?case
    using nextRune_consumes [of cf c cf1] nextRune_not_NL [of cf c cf1] by auto
next
  case (10 quote comment space val cf x c cf1 val')
  then show ?case
    using nextRune_consumes [of cf c cf1] nextRune_not_NL [of cf c cf1] by auto
qed

termination parseValue_loop
  by (rule parseValue_loop_total)

definition parseValue :: "parser \<Rightarrow> (error + gostring) \<times> parser" where
  "parseValue cf = parseValue_loop False False 0 [] cf"

section \<open>Keys and values\<close>

text \<open>
  \<^verbatim>\<open>getValue\<close> first completes the key name (its argument is a pointer, so the
  completed name is returned with the result), then skips blanks and tabs, and reads the
  value if an equals sign follows.
\<close>

function getValue_name :: "unicode \<Rightarrow> gostring \<Rightarrow> parser \<Rightarrow> rune \<times> gostring \<times> parser" where
  "getValue_name T name cf =
     (let (c, cf') = nextRune cf in
      if eof cf' then (c, name, cf')
      else if \<not> iskeychar T c then (c, name, cf')
      else getValue_name T (name @ [lower T c]) cf')"
  by pat_completeness auto

lemma getValue_name_total: "All getValue_name_dom"
proof (relation "measure (\<lambda>(T, name, cf). length (runes cf))", goal_cases)
  case 1
  show ?case by simp
next
  case (2 T name cf x c cf')
  then show ?case
    using nextRune_consumes [of cf c cf'] nextRune_not_eof [of cf c cf'] by auto
qed

termination getValue_name
  by (rule getValue_name_total)

function getValue_blanks :: "rune \<Rightarrow> parser \<Rightarrow> rune \<times> parser" where
  "getValue_blanks c cf =
     (if c = SPACE \<or> c = TAB then (let (c', cf') = nextRune cf in getValue_blanks c' cf')
      else (c, cf))"
  by pat_completeness auto

lemma getValue_blanks_total: "All getValue_blanks_dom"
  by (relation "measure (\<lambda>(c, cf). 2 * length (runes cf) + (if c = SPACE \<or> c = TAB then 1 else 0))")
     (auto simp add: nextRune_def Let_def split: if_splits)

termination getValue_blanks
  by (rule getValue_blanks_total)

definition getValue ::
  "unicode \<Rightarrow> gostring \<Rightarrow> parser \<Rightarrow> gostring \<times> (error + gostring) \<times> parser" where
  "getValue T name cf =
     (let (c, name, cf) = getValue_name T name cf;
          (c, cf) = getValue_blanks c cf
      in
        if c \<noteq> NL then
          (if c \<noteq> EQUALS then (name, Inl ErrInvalidKeyChar, cf)
           else
             (case parseValue cf of
                (Inl e, cf) \<Rightarrow> (name, Inl e, cf)
              | (Inr val, cf) \<Rightarrow> (name, Inr val, cf)))
        else (name, Inr [], cf))"

section \<open>The sub-parsers never give input back\<close>

text \<open>
  The defining equations of the loops are unconditional recursive equations; they are
  applied explicitly, one step at a time.
\<close>

declare getExtendedSectionKey_skip.simps [simp del]
  getExtendedSectionKey_quoted.simps [simp del]
  getSectionKey_loop.simps [simp del]
  parseValue_loop.simps [simp del]
  getValue_name.simps [simp del]
  getValue_blanks.simps [simp del]

lemma getExtendedSectionKey_skip_length:
  "getExtendedSectionKey_skip c cf = (r, cf') \<Longrightarrow> length (runes cf') \<le> length (runes cf)"
  apply (induction c cf arbitrary: r cf' rule: getExtendedSectionKey_skip.induct)
  apply (subst (asm) (2) getExtendedSectionKey_skip.simps)
  apply (auto split: if_splits prod.splits dest: nextRune_length)
  apply (metis le_trans nextRune_length)
  done

lemma getExtendedSectionKey_quoted_length:
  "getExtendedSectionKey_quoted name cf = (r, cf') \<Longrightarrow> length (runes cf') \<le> length (runes cf)"
  apply (induction name cf arbitrary: r cf' rule: getExtendedSectionKey_quoted.induct)
  apply (subst (asm) (3) getExtendedSectionKey_quoted.simps)
  apply (auto split: if_splits prod.splits dest: nextRune_length)
  apply (metis le_trans nextRune_length)+
  done

lemma getExtendedSectionKey_length:
  "getExtendedSectionKey name c cf = (r, cf') \<Longrightarrow> length (runes cf') \<le> length (runes cf)"
  apply (auto simp add: getExtendedSectionKey_def split: prod.splits sum.splits if_splits
      dest!: getExtendedSectionKey_skip_length getExtendedSectionKey_quoted_length nextRune_length)
  done

lemma getSectionKey_loop_length:
  "getSectionKey_loop T name cf = (r, cf') \<Longrightarrow> length (runes cf') \<le> length (runes cf)"
  apply (induction T name cf arbitrary: r cf' rule: getSectionKey_loop.induct)
  apply (subst (asm) (2) getSectionKey_loop.simps)
  apply (auto split: if_splits prod.splits dest: nextRune_length getExtendedSectionKey_length)
  apply (metis le_trans nextRune_length getExtendedSectionKey_length)+
  done

lemma getValue_name_length:
  "getValue_name T name cf = (c, name', cf') \<Longrightarrow> length (runes cf') \<le> length (runes cf)"
  apply (induction T name cf arbitrary: c name' cf' rule: getValue_name.induct)
  apply (subst (asm) (2) getValue_name.simps)
  apply (auto split: if_splits prod.splits dest: nextRune_length)
  apply (metis le_trans nextRune_length)+
  done

lemma getValue_blanks_length:
  "getValue_blanks c cf = (c', cf') \<Longrightarrow> length (runes cf') \<le> length (runes cf)"
  apply (induction c cf arbitrary: c' cf' rule: getValue_blanks.induct)
  apply (subst (asm) (2) getValue_blanks.simps)
  apply (auto split: if_splits prod.splits dest: nextRune_length)
  apply (metis le_trans nextRune_length)+
  done

lemma parseValue_loop_unfold:
  assumes n: "nextRune cf = (c, cf1)" and n2: "nextRune cf1 = (c2, cf2)"
  shows "parseValue_loop q cm sp v cf = (if c = NL then
        (if q then (Inl ErrUnfinishedQuote, cf1\<lparr>linenr := linenr cf1 - 1\<rparr>)
         else (Inr v, cf1))
      else if cm then parseValue_loop q cm sp v cf1
      else if isspace c \<and> \<not> q then
        parseValue_loop q cm (if length v > 0 then sp + 1 else sp) v cf1
      else if \<not> q \<and> (c = SEMI \<or> c = HASH) then parseValue_loop q True sp v cf1
      else
        if c = BSLASH then
          (
           if c2 = NL then parseValue_loop q cm 0 (flush sp v) cf2
           else if c2 = 116 then parseValue_loop q cm 0 (flush sp v @ [TAB]) cf2
           else if c2 = 98 then parseValue_loop q cm 0 (flush sp v @ [BS]) cf2
           else if c2 = 110 then parseValue_loop q cm 0 (flush sp v @ [NL]) cf2
           else (Inl ErrInvalidEscapeSequence, cf2))
        else if c = DQUOTE then parseValue_loop (\<not> q) cm 0 (flush sp v) cf1
        else parseValue_loop q cm 0 (flush sp v @ [c]) cf1)"
  by (subst parseValue_loop.simps) (simp add: n n2 Let_def split del: if_split cong: if_cong)

lemma parseValue_loop_length:
  "parseValue_loop q cm sp v cf = (r, cf') \<Longrightarrow> length (runes cf') \<le> length (runes cf)"
proof (induction "length (runes cf)" arbitrary: q cm sp v cf r cf' rule: less_induct)
  case less
  obtain c cf1 where n: "nextRune cf = (c, cf1)" by fastforce
  obtain c2 cf2 where n2: "nextRune cf1 = (c2, cf2)" by fastforce
  note l1 = nextRune_length[OF n] and l2 = nextRune_length[OF n2]
  note p = less.prems[unfolded parseValue_loop_unfold[OF n n2]]
  show ?case
  proof (cases "c = NL")
    case True
    with p have "runes cf' = runes cf1" by (auto split: if_splits)
    with l1 show ?thesis by simp
  next
    case False
    with n have l: "length (runes cf1) < length (runes cf)"
      using nextRune_consumes nextRune_not_NL by blast
    from False p have "cf' = cf2 \<or> (\<exists>q' cm' sp' v' cfx. (cfx = cf1 \<or> cfx = cf2) \<and>
        parseValue_loop q' cm' sp' v' cfx = (r, cf'))"
      by (simp split: if_splits) blast+
    then show ?thesis
      using less.hyps l l2 by (metis le_trans less_imp_le_nat order_le_less_trans)
  qed
qed

lemma getSectionKey_length:
  "getSectionKey T cf = (r, cf') \<Longrightarrow> length (runes cf') \<le> length (runes cf)"
  unfolding getSectionKey_def by (rule getSectionKey_loop_length)

lemma getValue_length:
  assumes "getValue T name cf = (name', r, cf')"
  shows "length (runes cf') \<le> length (runes cf)"
proof -
  obtain c n1 cf1 where a: "getValue_name T name cf = (c, n1, cf1)" by (metis prod_cases3)
  obtain c2 cf2 where b: "getValue_blanks c cf1 = (c2, cf2)" by fastforce
  obtain r3 cf3 where p: "parseValue cf2 = (r3, cf3)" by fastforce
  from assms have "cf' = cf2 \<or> cf' = cf3"
    by (auto simp add: getValue_def a b p split: if_splits sum.splits)
  moreover have "length (runes cf3) \<le> length (runes cf2)"
    using p parseValue_loop_length unfolding parseValue_def by blast
  ultimately show ?thesis
    using getValue_name_length [OF a] getValue_blanks_length [OF b] by auto
qed

section \<open>The driver\<close>

text \<open>
  The loop of \<^verbatim>\<open>parse\<close> with its local variables \<^verbatim>\<open>comment\<close>, \<^verbatim>\<open>cfg\<close> and
  \<^verbatim>\<open>name\<close>; the configuration is a map from keys to values. \<^verbatim>\<open>Parse\<close> starts it on
  the decoded input with line number 1.
\<close>

function parse_loop ::
  "unicode \<Rightarrow> bool \<Rightarrow> (gostring \<rightharpoonup> gostring) \<Rightarrow> gostring \<Rightarrow> parser \<Rightarrow>
   (gostring \<rightharpoonup> gostring) \<times> error option \<times> parser" where
  "parse_loop T comment cfg name cf =
     (let (c, cf1) = nextRune cf in
      if c = NL then
        (if eof cf1 then (cfg, None, cf1)
         else parse_loop T False cfg name cf1)
      else if comment \<or> isspace c then parse_loop T comment cfg name cf1
      else if c = HASH \<or> c = SEMI then parse_loop T True cfg name cf1
      else if c = LBRACK then
        (case getSectionKey T cf1 of
           (Inl err, cf2) \<Rightarrow> (cfg, Some err, cf2)
         | (Inr name', cf2) \<Rightarrow> parse_loop T comment cfg (name' @ [DOT]) cf2)
      else if \<not> isalpha T c then (cfg, Some ErrInvalidKeyChar, cf1)
      else
        (case getValue T (name @ [c]) cf1 of
           (key, Inl err, cf2) \<Rightarrow> (cfg, Some err, cf2)
         | (key, Inr val, cf2) \<Rightarrow> parse_loop T comment (cfg(key \<mapsto> val)) name cf2))"
  by pat_completeness auto

lemma parse_loop_total: "All parse_loop_dom"
  apply (relation "measure (\<lambda>(T, comment, cfg, name, cf). length (runes cf))")
  apply simp
  subgoal for T comment cfg name cf x c cf1
    using nextRune_consumes [of cf c cf1] nextRune_not_eof [of cf c cf1] by auto
  subgoal for T comment cfg name cf x c cf1
    using nextRune_consumes [of cf c cf1] nextRune_not_NL [of cf c cf1] by auto
  subgoal for T comment cfg name cf x c cf1
    using nextRune_consumes [of cf c cf1] nextRune_not_NL [of cf c cf1] by auto
  subgoal for T comment cfg name cf x c cf1 r cf2 name'
    using nextRune_consumes [of cf c cf1] nextRune_not_NL [of cf c cf1]
      getSectionKey_length [of T cf1 r cf2] by auto
  subgoal for T comment cfg name cf x c cf1 key ya r cf2 val
    using nextRune_consumes [of cf c cf1] nextRune_not_NL [of cf c cf1]
      getValue_length [of T "name @ [c]" cf1 key r cf2] by auto
  done

termination parse_loop
  by (rule parse_loop_total)

definition Parse :: "unicode \<Rightarrow> rune list \<Rightarrow> (gostring \<rightharpoonup> gostring) \<times> nat \<times> error option" where
  "Parse T bytes =
     (let (cfg, err, cf) = parse_loop T False Map.empty [] \<lparr>runes = bytes, linenr = 1, eof = False\<rparr>
      in (cfg, linenr cf, err))"

declare parse_loop.simps [simp del]

text \<open>Rewrite rules that run the parser on a concrete input.\<close>

lemmas eval_simps = Parse_def ascii_def parse_loop.simps getSectionKey_def getSectionKey_loop.simps
  getExtendedSectionKey_def getExtendedSectionKey_skip.simps getExtendedSectionKey_quoted.simps
  getValue_def getValue_name.simps getValue_blanks.simps parseValue_def parseValue_loop.simps
  nextRune_def Let_def unicode_ascii_def isspace_def IsSpace_def isalpha_def isnum_def isalnum_def
  iskeychar_def lower_def

section \<open>One step of each loop\<close>

text \<open>
  Each loop unfolded once, given what the cursor returns; and what the cursor returns in
  terms of the remaining input.
\<close>

lemma isspace_NL [simp]: "isspace NL" and isspace_CR [simp]: "isspace CR"
  and isspace_SPACE [simp]: "isspace SPACE" and isspace_TAB [simp]: "isspace TAB"
  by (simp_all add: isspace_def IsSpace_def)

lemma getExtendedSectionKey_skip_unfold:
  assumes "nextRune cf = (c', cf')"
  shows "getExtendedSectionKey_skip c cf =
     (if c = NL then (Inl ErrSectionNewLine, cf\<lparr>linenr := linenr cf - 1\<rparr>)
      else if \<not> isspace c' then (Inr c', cf')
      else getExtendedSectionKey_skip c' cf')"
  by (subst getExtendedSectionKey_skip.simps) (simp add: assms)

lemma getExtendedSectionKey_quoted_unfold:
  assumes "nextRune cf = (c, cf1)" and "nextRune cf1 = (c2, cf2)"
  shows "getExtendedSectionKey_quoted name cf =
     (if c = NL then (Inl ErrSectionNewLine, cf1\<lparr>linenr := linenr cf1 - 1\<rparr>)
      else if c = DQUOTE then (Inr name, cf1)
      else if c = BSLASH then
        (if c2 = NL then (Inl ErrSectionNewLine, cf2\<lparr>linenr := linenr cf2 - 1\<rparr>)
         else getExtendedSectionKey_quoted (name @ [c2]) cf2)
      else getExtendedSectionKey_quoted (name @ [c]) cf1)"
  by (subst getExtendedSectionKey_quoted.simps) (simp add: assms)

lemma getSectionKey_loop_unfold:
  assumes "nextRune cf = (c, cf')"
  shows "getSectionKey_loop T name cf =
     (if eof cf' then (Inl ErrUnexpectedEOF, cf')
      else if c = RBRACK then (Inr name, cf')
      else if isspace c then getExtendedSectionKey name c cf'
      else if \<not> iskeychar T c \<and> c \<noteq> DOT then (Inl ErrInvalidSectionChar, cf')
      else getSectionKey_loop T (name @ [lower T c]) cf')"
  by (subst getSectionKey_loop.simps) (simp add: assms)

lemma getValue_name_unfold:
  assumes "nextRune cf = (c, cf')"
  shows "getValue_name T name cf =
     (if eof cf' then (c, name, cf')
      else if \<not> iskeychar T c then (c, name, cf')
      else getValue_name T (name @ [lower T c]) cf')"
  by (subst getValue_name.simps) (simp add: assms)

lemma getValue_blanks_unfold:
  assumes "nextRune cf = (c', cf')"
  shows "getValue_blanks c cf =
     (if c = SPACE \<or> c = TAB then getValue_blanks c' cf' else (c, cf))"
  by (subst getValue_blanks.simps) (simp add: assms)

lemma parse_loop_unfold:
  assumes "nextRune cf = (c, cf1)"
  shows "parse_loop T comment cfg name cf =
     (if c = NL then
        (if eof cf1 then (cfg, None, cf1)
         else parse_loop T False cfg name cf1)
      else if comment \<or> isspace c then parse_loop T comment cfg name cf1
      else if c = HASH \<or> c = SEMI then parse_loop T True cfg name cf1
      else if c = LBRACK then
        (case getSectionKey T cf1 of
           (Inl err, cf2) \<Rightarrow> (cfg, Some err, cf2)
         | (Inr name', cf2) \<Rightarrow> parse_loop T comment cfg (name' @ [DOT]) cf2)
      else if \<not> isalpha T c then (cfg, Some ErrInvalidKeyChar, cf1)
      else
        (case getValue T (name @ [c]) cf1 of
           (key, Inl err, cf2) \<Rightarrow> (cfg, Some err, cf2)
         | (key, Inr val, cf2) \<Rightarrow> parse_loop T comment (cfg(key \<mapsto> val)) name cf2))"
  by (subst parse_loop.simps) (simp add: assms)


lemma nextRune_rune:
  "nextRune cf = (c, cf') \<Longrightarrow> c = NL \<or> c \<in> set (runes cf)"
  by (cases "runes cf") (auto simp add: nextRune_def Let_def split: if_splits)

lemma nextRune_set:
  "nextRune cf = (c, cf') \<Longrightarrow> set (runes cf') \<subseteq> set (runes cf)"
  by (cases "runes cf") (auto simp add: nextRune_def Let_def split: if_splits dest: list.set_sel(2))


lemma nextRune_not_NL_eq:
  "nextRune cf = (c, cf') \<Longrightarrow> c \<noteq> NL \<Longrightarrow> runes cf = c # runes cf' \<and> cf' = cf\<lparr>runes := runes cf'\<rparr>"
  by (cases "runes cf") (auto simp add: nextRune_def Let_def split: if_splits)

lemma nextRune_single:
  "runes cf = c # rest \<Longrightarrow> c \<noteq> NL \<Longrightarrow> (c = CR \<longrightarrow> rest = [] \<or> hd rest \<noteq> NL) \<Longrightarrow>
   nextRune cf = (c, cf\<lparr>runes := rest\<rparr>)"
  using nextRune_CR [of cf rest] nextRune_other [of cf c rest] by (cases "c = CR") auto

section \<open>Claims about the cursor\<close>

text \<open>
  Claim C9: called with the input exhausted, the next-code-point operation sets the
  end-of-input flag, returns a synthetic newline, and increments the line counter once
  more. The code returns early in that case: the flag is set and the newline returned,
  but the line counter is left as it is. On the empty input the counter stays at 1, and
  \<^verbatim>\<open>Parse\<close> reports line 1. The increment stands in the second test for an empty slice
  further down in \<^verbatim>\<open>nextRune\<close>, which the early return makes unreachable.
\<close>

theorem nextRune_exhausted:
  "nextRune \<lparr>runes = [], linenr = 1, eof = False\<rparr> = (NL, \<lparr>runes = [], linenr = 1, eof = True\<rparr>)
   \<and> Parse unicode_ascii [] = (Map.empty, 1, None)"
  by (simp add: eval_simps)

text \<open>
  Claim C3, as stated, has a lone carriage return normalised to a newline and counted as a
  line. The code returns a carriage return that is not followed by a line feed as it is,
  and leaves the line counter alone.
\<close>

theorem nextRune_lone_CR:
  "nextRune \<lparr>runes = CR # ascii ''x'', linenr = 1, eof = False\<rparr>
     = (CR, \<lparr>runes = ascii ''x'', linenr = 1, eof = False\<rparr>)"
  by (simp add: eval_simps)

text \<open>
  Claim C3, amended: on a non-empty input the next-code-point operation turns the pair
  carriage return, line feed into one newline and consumes both runes; it returns a line
  feed as a newline; each of the two increments the line counter exactly once. A carriage
  return that is not followed by a line feed is returned unchanged, and so is every other
  rune; neither changes the line counter.
\<close>

theorem nextRune_newlines:
  "(runes cf = CR # NL # rest \<longrightarrow>
      nextRune cf = (NL, cf\<lparr>runes := rest, linenr := linenr cf + 1\<rparr>)) \<and>
   (runes cf = NL # rest \<longrightarrow>
      nextRune cf = (NL, cf\<lparr>runes := rest, linenr := linenr cf + 1\<rparr>)) \<and>
   (runes cf = CR # rest \<and> (rest = [] \<or> hd rest \<noteq> NL) \<longrightarrow>
      nextRune cf = (CR, cf\<lparr>runes := rest\<rparr>)) \<and>
   (runes cf = c # rest \<and> c \<noteq> NL \<and> c \<noteq> CR \<longrightarrow>
      nextRune cf = (c, cf\<lparr>runes := rest\<rparr>))"
  using nextRune_CRLF nextRune_NL nextRune_CR nextRune_other by blast

theorem nextRune_newlines_witness:
  "nextRune \<lparr>runes = [CR, NL, 97], linenr = 1, eof = False\<rparr>
     = (NL, \<lparr>runes = [97], linenr = 2, eof = False\<rparr>) \<and>
   nextRune \<lparr>runes = [NL, 97], linenr = 1, eof = False\<rparr>
     = (NL, \<lparr>runes = [97], linenr = 2, eof = False\<rparr>) \<and>
   nextRune \<lparr>runes = [CR, 97], linenr = 1, eof = False\<rparr>
     = (CR, \<lparr>runes = [97], linenr = 1, eof = False\<rparr>) \<and>
   nextRune \<lparr>runes = [97, NL], linenr = 1, eof = False\<rparr>
     = (97, \<lparr>runes = [NL], linenr = 1, eof = False\<rparr>)"
  using nextRune_newlines [of "\<lparr>runes = [CR, NL, 97], linenr = 1, eof = False\<rparr>" "[97]"]
    nextRune_newlines [of "\<lparr>runes = [NL, 97], linenr = 1, eof = False\<rparr>" "[97]"]
    nextRune_newlines [of "\<lparr>runes = [CR, 97], linenr = 1, eof = False\<rparr>" "[97]"]
    nextRune_newlines [of "\<lparr>runes = [97, NL], linenr = 1, eof = False\<rparr>" "[NL]" 97]
  by simp

section \<open>Claims about keys and fault lines\<close>

text \<open>
  Claim C7: section names and key names are lower-cased, a quoted subsection keeps its
  case. The first and the third example of the claim come out as stated. In the second,
  \<^verbatim>\<open>[foo.bar] BAZ = 1\<close>, the driver appends the first rune of the key as it is read and
  only the runes after it are lower-cased by \<^verbatim>\<open>getValue\<close>: the key is
  \<^verbatim>\<open>foo.bar.Baz\<close>, not \<^verbatim>\<open>foo.bar.baz\<close>.
\<close>

theorem key_case_examples:
  \<open>Parse unicode_ascii (ascii ''[Foo.Bar] baz = 1'')
     = (Map.empty(ascii ''foo.bar.baz'' \<mapsto> ascii ''1''), 1, None) \<and>
   Parse unicode_ascii (ascii ''[foo.bar] BAZ = 1'')
     = (Map.empty(ascii ''foo.bar.Baz'' \<mapsto> ascii ''1''), 1, None) \<and>
   Parse unicode_ascii (ascii ''[foo "Bar"] baz=1'')
     = (Map.empty(ascii ''foo.Bar.baz'' \<mapsto> ascii ''1''), 1, None)\<close>
  by (simp add: eval_simps)

text \<open>
  Claim C2: the line number returned with an error is the physical line of the offending
  character. The errors raised at a newline decrement the line counter first, because
  reading a newline has incremented it; the synthetic newline at the end of the input
  does not increment it (see C9), so an unterminated quoted value and an unterminated
  extended section header on the only line of the input are reported on line 0. A closing
  quote of a subsection followed by a line feed is reported, without any decrement, on
  line 2 although the header is on line 1.
\<close>

theorem fault_line_examples:
  \<open>Parse unicode_ascii (ascii ''a = "x'') = (Map.empty, 0, Some ErrUnfinishedQuote) \<and>
   Parse unicode_ascii (ascii ''[a "x'') = (Map.empty, 0, Some ErrSectionNewLine) \<and>
   Parse unicode_ascii (ascii ''[a "x"'' @ [NL]) = (Map.empty, 2, Some ErrMissingClosingBracket)\<close>
  by (simp add: eval_simps)

section \<open>Section headers\<close>

text \<open>
  The runes a plain section name is made of: key characters and dots, none of them the
  closing bracket or whitespace (which the code tests first). The runes a quoted
  subsection is read through one by one: no quote, backslash, line feed or carriage
  return.
\<close>

definition section_runes :: "unicode \<Rightarrow> rune list \<Rightarrow> bool" where
  "section_runes T base \<longleftrightarrow>
     list_all (\<lambda>c. c \<noteq> RBRACK \<and> \<not> isspace c \<and> (iskeychar T c \<or> c = DOT)) base"

lemma getSectionKey_loop_base:
  "section_runes T base \<Longrightarrow> \<not> eof cf \<Longrightarrow>
   getSectionKey_loop T name (cf\<lparr>runes := base @ rest\<rparr>)
     = getSectionKey_loop T (name @ map (lower T) base) (cf\<lparr>runes := rest\<rparr>)"
proof (induction base arbitrary: name)
  case Nil
  show ?case by simp
next
  case (Cons c base)
  then have c: "c \<noteq> NL" "c \<noteq> CR" "c \<noteq> RBRACK" "\<not> isspace c" "iskeychar T c \<or> c = DOT"
    and b: "section_runes T base"
    by (auto simp add: section_runes_def)
  have n: "nextRune (cf\<lparr>runes := c # base @ rest\<rparr>) = (c, cf\<lparr>runes := base @ rest\<rparr>)"
    using nextRune_other [of "cf\<lparr>runes := c # base @ rest\<rparr>" c "base @ rest"] c by simp
  show ?case
    using c Cons.prems(2) Cons.IH [OF b Cons.prems(2), of "name @ [lower T c]"]
    by (auto simp add: getSectionKey_loop_unfold [OF n])
qed

lemma getSectionKey_loop_Nil:
  "getSectionKey_loop T name (cf\<lparr>runes := []\<rparr>) = (Inl ErrUnexpectedEOF, cf\<lparr>runes := [], eof := True\<rparr>)"
  using getSectionKey_loop_unfold [OF nextRune_Nil, of "cf\<lparr>runes := []\<rparr>" T name] by simp

lemma getSectionKey_loop_eof:
  "eof cf \<Longrightarrow> \<exists>cf'. getSectionKey_loop T name cf = (Inl ErrUnexpectedEOF, cf')"
proof -
  assume e: "eof cf"
  obtain c cf' where n: "nextRune cf = (c, cf')" by fastforce
  with e have "eof cf'" by (cases "runes cf") (auto simp add: nextRune_def Let_def split: if_splits)
  then show ?thesis by (simp add: getSectionKey_loop_unfold [OF n])
qed

lemma getSectionKey_plain_eof:
  assumes "section_runes T base"
  shows "fst (getSectionKey T (cf\<lparr>runes := base\<rparr>)) = Inl ErrUnexpectedEOF"
proof (cases "eof cf")
  case False
  then show ?thesis
    using getSectionKey_loop_base [OF assms False, of "[]" "[]"] getSectionKey_loop_Nil
    by (simp add: getSectionKey_def)
next
  case True
  then show ?thesis
    using getSectionKey_loop_eof [of "cf\<lparr>runes := base\<rparr>" T "[]"]
    by (auto simp add: getSectionKey_def)
qed



lemma getExtendedSectionKey_skip_NL:
  "getExtendedSectionKey_skip NL cf = (Inl ErrSectionNewLine, cf\<lparr>linenr := linenr cf - 1\<rparr>)"
  by (subst getExtendedSectionKey_skip.simps) simp

lemma getExtendedSectionKey_skip_spaces:
  "list_all isspace (runes cf) \<Longrightarrow> isspace c \<Longrightarrow>
   fst (getExtendedSectionKey_skip c cf) = Inl ErrSectionNewLine"
proof (induction "length (runes cf)" arbitrary: c cf rule: less_induct)
  case less
  obtain c' cf' where n: "nextRune cf = (c', cf')" by fastforce
  show ?case
  proof (cases "c' = NL")
    case True
    then show ?thesis
      by (simp add: getExtendedSectionKey_skip_unfold [OF n] getExtendedSectionKey_skip_NL)
  next
    case False
    then have "c' \<in> set (runes cf)" "length (runes cf') < length (runes cf)"
      using nextRune_rune [OF n] nextRune_consumes [OF n] nextRune_not_NL [OF n] by auto
    moreover have "list_all isspace (runes cf')"
      using nextRune_set [OF n] less.prems(1) by (auto simp add: list_all_iff)
    ultimately show ?thesis
      using less.prems less.hyps [of cf' c']
      by (auto simp add: getExtendedSectionKey_skip_unfold [OF n] list_all_iff)
  qed
qed

lemma getExtendedSectionKey_quoted_unclosed:
  "DQUOTE \<notin> set (runes cf) \<Longrightarrow>
   fst (getExtendedSectionKey_quoted name cf) = Inl ErrSectionNewLine"
proof (induction "length (runes cf)" arbitrary: name cf rule: less_induct)
  case less
  obtain c cf1 where n: "nextRune cf = (c, cf1)" by fastforce
  obtain c2 cf2 where n2: "nextRune cf1 = (c2, cf2)" by fastforce
  show ?case
  proof (cases "c = NL")
    case True
    then show ?thesis by (simp add: getExtendedSectionKey_quoted_unfold [OF n n2])
  next
    case False
    then have c: "c \<noteq> DQUOTE" and l1: "length (runes cf1) < length (runes cf)"
      using nextRune_rune [OF n] nextRune_consumes [OF n] nextRune_not_NL [OF n] less.prems
      by auto
    have l2: "length (runes cf2) < length (runes cf)"
      using l1 nextRune_length [OF n2] by simp
    have q: "DQUOTE \<notin> set (runes cf1)" "DQUOTE \<notin> set (runes cf2)"
      using nextRune_set [OF n] nextRune_set [OF n2] less.prems by auto
    show ?thesis
      using False c less.hyps [OF l1 q(1)] less.hyps [OF l2 q(2)]
      by (simp add: getExtendedSectionKey_quoted_unfold [OF n n2])
  qed
qed


lemma getExtendedSectionKey_skip_to_quote:
  "list_all isspace ws \<Longrightarrow> runes cf = ws @ DQUOTE # q \<Longrightarrow> isspace c \<Longrightarrow>
   fst (getExtendedSectionKey_skip c cf) = Inl ErrSectionNewLine \<or>
   (\<exists>cf1. getExtendedSectionKey_skip c cf = (Inr DQUOTE, cf1) \<and> runes cf1 = q)"
proof (induction ws arbitrary: c cf)
  case Nil
  then have n: "nextRune cf = (DQUOTE, cf\<lparr>runes := q\<rparr>)"
    using nextRune_other [of cf DQUOTE q] by simp
  show ?case
    by (simp add: getExtendedSectionKey_skip_unfold [OF n] isspace_def IsSpace_def)
next
  case (Cons w ws)
  obtain c' cf' where n: "nextRune cf = (c', cf')" by fastforce
  show ?case
  proof (cases "c' = NL")
    case True
    then show ?thesis
      by (simp add: getExtendedSectionKey_skip_unfold [OF n] getExtendedSectionKey_skip_NL)
  next
    case False
    from nextRune_not_NL_eq [OF n False] Cons.prems(2)
    have "c' = w" "runes cf' = ws @ DQUOTE # q" by auto
    then show ?thesis
      using Cons.IH [of cf' c'] Cons.prems False
      by (simp add: getExtendedSectionKey_skip_unfold [OF n])
  qed
qed

lemma getExtendedSectionKey_unclosed:
  assumes "list_all isspace ws" "runes cf = ws @ DQUOTE # q" "isspace c" "DQUOTE \<notin> set q"
  shows "fst (getExtendedSectionKey name c cf) = Inl ErrSectionNewLine"
  using getExtendedSectionKey_skip_to_quote [OF assms(1-3)]
proof
  assume "fst (getExtendedSectionKey_skip c cf) = Inl ErrSectionNewLine"
  then show ?thesis
    by (cases "getExtendedSectionKey_skip c cf") (simp add: getExtendedSectionKey_def)
next
  assume "\<exists>cf1. getExtendedSectionKey_skip c cf = (Inr DQUOTE, cf1) \<and> runes cf1 = q"
  then obtain cf1 where s: "getExtendedSectionKey_skip c cf = (Inr DQUOTE, cf1)" and "runes cf1 = q"
    by blast
  then have "fst (getExtendedSectionKey_quoted (name @ [DOT]) cf1) = Inl ErrSectionNewLine"
    using getExtendedSectionKey_quoted_unclosed assms(4) by simp
  then show ?thesis
    by (cases "getExtendedSectionKey_quoted (name @ [DOT]) cf1")
      (simp add: getExtendedSectionKey_def s)
qed

lemma getExtendedSectionKey_spaces:
  assumes "list_all isspace (runes cf)" "isspace c"
  shows "fst (getExtendedSectionKey name c cf) = Inl ErrSectionNewLine"
  using getExtendedSectionKey_skip_spaces [OF assms]
  by (cases "getExtendedSectionKey_skip c cf") (simp add: getExtendedSectionKey_def)

lemma getExtendedSectionKey_skip_plain:
  "list_all isspace ws \<Longrightarrow> NL \<notin> set ws \<Longrightarrow> runes cf = ws @ DQUOTE # q \<Longrightarrow> c \<noteq> NL \<Longrightarrow>
   getExtendedSectionKey_skip c cf = (Inr DQUOTE, cf\<lparr>runes := q\<rparr>)"
proof (induction ws arbitrary: c cf)
  case Nil
  then have n: "nextRune cf = (DQUOTE, cf\<lparr>runes := q\<rparr>)"
    using nextRune_other [of cf DQUOTE q] by simp
  show ?case using Nil.prems
    by (simp add: getExtendedSectionKey_skip_unfold [OF n] isspace_def IsSpace_def)
next
  case (Cons w ws)
  have "hd (ws @ DQUOTE # q) \<noteq> NL" using Cons.prems(2) by (cases ws) auto
  then have n: "nextRune cf = (w, cf\<lparr>runes := ws @ DQUOTE # q\<rparr>)"
    using nextRune_single [of cf w "ws @ DQUOTE # q"] Cons.prems by auto
  show ?case
    using Cons.prems Cons.IH [of "cf\<lparr>runes := ws @ DQUOTE # q\<rparr>" w]
    by (simp add: getExtendedSectionKey_skip_unfold [OF n])
qed

definition quoted_runes :: "rune list \<Rightarrow> bool" where
  "quoted_runes q \<longleftrightarrow> list_all (\<lambda>c. c \<noteq> DQUOTE \<and> c \<noteq> BSLASH \<and> c \<noteq> NL \<and> c \<noteq> CR) q"

lemma getExtendedSectionKey_quoted_plain:
  "quoted_runes q \<Longrightarrow> runes cf = q @ DQUOTE # rest \<Longrightarrow>
   getExtendedSectionKey_quoted name cf = (Inr (name @ q), cf\<lparr>runes := rest\<rparr>)"
proof (induction q arbitrary: name cf)
  case Nil
  then have n: "nextRune cf = (DQUOTE, cf\<lparr>runes := rest\<rparr>)"
    using nextRune_other [of cf DQUOTE rest] by simp
  obtain c2 cf2 where n2: "nextRune (cf\<lparr>runes := rest\<rparr>) = (c2, cf2)" by fastforce
  show ?case by (simp add: getExtendedSectionKey_quoted_unfold [OF n n2])
next
  case (Cons c q)
  then have c: "c \<noteq> DQUOTE" "c \<noteq> BSLASH" "c \<noteq> NL" "c \<noteq> CR" and q: "quoted_runes q"
    by (auto simp add: quoted_runes_def)
  have n: "nextRune cf = (c, cf\<lparr>runes := q @ DQUOTE # rest\<rparr>)"
    using nextRune_other [of cf c "q @ DQUOTE # rest"] c Cons.prems by simp
  obtain c2 cf2 where n2: "nextRune (cf\<lparr>runes := q @ DQUOTE # rest\<rparr>) = (c2, cf2)" by fastforce
  show ?case
    using c Cons.IH [OF q, of "cf\<lparr>runes := q @ DQUOTE # rest\<rparr>" "name @ [c]"]
    by (simp add: getExtendedSectionKey_quoted_unfold [OF n n2])
qed

lemma getExtendedSectionKey_closed_eof:
  assumes "list_all isspace ws" "NL \<notin> set ws" "runes cf = ws @ DQUOTE # q @ [DQUOTE]" "c \<noteq> NL"
    "quoted_runes q"
  shows "getExtendedSectionKey name c cf = (Inl ErrMissingClosingBracket, cf\<lparr>runes := [], eof := True\<rparr>)"
proof -
  have s: "getExtendedSectionKey_skip c cf = (Inr DQUOTE, cf\<lparr>runes := q @ [DQUOTE]\<rparr>)"
    using getExtendedSectionKey_skip_plain [OF assms(1,2,3,4)] .
  have r: "getExtendedSectionKey_quoted (name @ [DOT]) (cf\<lparr>runes := q @ [DQUOTE]\<rparr>)
      = (Inr (name @ DOT # q), cf\<lparr>runes := []\<rparr>)"
    using getExtendedSectionKey_quoted_plain [OF assms(5), of "cf\<lparr>runes := q @ [DQUOTE]\<rparr>" "[]" "name @ [DOT]"]
    by simp
  show ?thesis
    by (simp add: getExtendedSectionKey_def s r nextRune_Nil)
qed


lemma parse_loop_LBRACK:
  "parse_loop T False cfg name (cf\<lparr>runes := LBRACK # rest\<rparr>) =
     (case getSectionKey T (cf\<lparr>runes := rest\<rparr>) of
        (Inl err, cf2) \<Rightarrow> (cfg, Some err, cf2)
      | (Inr name', cf2) \<Rightarrow> parse_loop T False cfg (name' @ [DOT]) cf2)"
proof -
  have n: "nextRune (cf\<lparr>runes := LBRACK # rest\<rparr>) = (LBRACK, cf\<lparr>runes := rest\<rparr>)"
    using nextRune_other [of "cf\<lparr>runes := LBRACK # rest\<rparr>" LBRACK rest] by simp
  show ?thesis
    by (simp add: parse_loop_unfold [OF n] isspace_def IsSpace_def)
qed

lemma parse_loop_section_error:
  "fst (getSectionKey T (cf\<lparr>runes := rest\<rparr>)) = Inl e \<Longrightarrow>
   fst (snd (parse_loop T False cfg name (cf\<lparr>runes := LBRACK # rest\<rparr>))) = Some e"
  by (cases "getSectionKey T (cf\<lparr>runes := rest\<rparr>)") (simp add: parse_loop_LBRACK)

lemma getExtendedSectionKey_NL:
  "fst (getExtendedSectionKey name NL cf) = Inl ErrSectionNewLine"
  by (simp add: getExtendedSectionKey_def getExtendedSectionKey_skip_NL)

lemma getSectionKey_loop_space:
  assumes "\<not> eof cf" "runes cf = w # rest" "isspace w" "nextRune cf = (c', cf')"
  shows "getSectionKey_loop T name cf = getExtendedSectionKey name c' cf'"
proof -
  have "\<not> eof cf'" "c' = NL \<or> c' = w"
    using assms by (auto simp add: nextRune_def Let_def split: if_splits)
  then have "c' \<noteq> RBRACK" "isspace c'"
    using assms(3) by (auto simp add: isspace_def IsSpace_def)
  then show ?thesis
    using \<open>\<not> eof cf'\<close> by (simp add: getSectionKey_loop_unfold [OF assms(4)])
qed

lemma getSectionKey_ext_spaces:
  assumes "section_runes T base" "\<not> eof cf" "isspace w" "list_all isspace ws"
  shows "fst (getSectionKey T (cf\<lparr>runes := base @ w # ws\<rparr>)) = Inl ErrSectionNewLine"
proof -
  obtain c' cf' where n: "nextRune (cf\<lparr>runes := w # ws\<rparr>) = (c', cf')" by fastforce
  have "c' = NL \<or> c' = w"
    using n by (auto simp add: nextRune_def Let_def split: if_splits)
  then have "isspace c'" using assms(3) by auto
  moreover have "list_all isspace (runes cf')"
    using nextRune_set [OF n] assms(3,4) by (auto simp add: list_all_iff)
  ultimately have "fst (getExtendedSectionKey (map (lower T) base) c' cf') = Inl ErrSectionNewLine"
    by (rule getExtendedSectionKey_spaces [rotated])
  then show ?thesis
    using getSectionKey_loop_base [OF assms(1,2), of "[]" "w # ws"]
      getSectionKey_loop_space [of "cf\<lparr>runes := w # ws\<rparr>" w ws c' cf' T "map (lower T) base"]
      assms(2,3) n
    by (simp add: getSectionKey_def)
qed

lemma getSectionKey_ext_unclosed:
  assumes "section_runes T base" "\<not> eof cf" "isspace w" "list_all isspace ws" "DQUOTE \<notin> set q"
  shows "fst (getSectionKey T (cf\<lparr>runes := base @ w # ws @ DQUOTE # q\<rparr>)) = Inl ErrSectionNewLine"
proof -
  obtain c' cf' where n: "nextRune (cf\<lparr>runes := w # ws @ DQUOTE # q\<rparr>) = (c', cf')" by fastforce
  have "fst (getExtendedSectionKey (map (lower T) base) c' cf') = Inl ErrSectionNewLine"
  proof (cases "c' = NL")
    case True
    then show ?thesis by (simp add: getExtendedSectionKey_NL)
  next
    case False
    from nextRune_not_NL_eq [OF n False]
    have "c' = w" "runes cf' = ws @ DQUOTE # q" by auto
    then show ?thesis
      using getExtendedSectionKey_unclosed [OF assms(4) _ _ assms(5), of cf' c'] assms(3) by simp
  qed
  then show ?thesis
    using getSectionKey_loop_base [OF assms(1,2), of "[]" "w # ws @ DQUOTE # q"]
      getSectionKey_loop_space [of "cf\<lparr>runes := w # ws @ DQUOTE # q\<rparr>" w "ws @ DQUOTE # q" c' cf' T "map (lower T) base"]
      assms(2,3) n
    by (simp add: getSectionKey_def)
qed

lemma getSectionKey_ext_closed_eof:
  assumes "section_runes T base" "\<not> eof cf" "list_all isspace (w # ws)" "NL \<notin> set (w # ws)"
    "quoted_runes q"
  shows "fst (getSectionKey T (cf\<lparr>runes := base @ w # ws @ DQUOTE # q @ [DQUOTE]\<rparr>))
    = Inl ErrMissingClosingBracket"
proof -
  have "hd (ws @ DQUOTE # q @ [DQUOTE]) \<noteq> NL" using assms(4) by (cases ws) auto
  then have n: "nextRune (cf\<lparr>runes := w # ws @ DQUOTE # q @ [DQUOTE]\<rparr>)
      = (w, cf\<lparr>runes := ws @ DQUOTE # q @ [DQUOTE]\<rparr>)"
    using nextRune_single [of "cf\<lparr>runes := w # ws @ DQUOTE # q @ [DQUOTE]\<rparr>" w "ws @ DQUOTE # q @ [DQUOTE]"]
      assms(4) by auto
  have "fst (getExtendedSectionKey (map (lower T) base) w (cf\<lparr>runes := ws @ DQUOTE # q @ [DQUOTE]\<rparr>))
      = Inl ErrMissingClosingBracket"
    using getExtendedSectionKey_closed_eof [of ws "cf\<lparr>runes := ws @ DQUOTE # q @ [DQUOTE]\<rparr>" q w]
      assms(3,4,5) by simp
  then show ?thesis
    using getSectionKey_loop_base [OF assms(1,2), of "[]" "w # ws @ DQUOTE # q @ [DQUOTE]"]
      getSectionKey_loop_space [OF _ _ _ n, of w "ws @ DQUOTE # q @ [DQUOTE]" T "map (lower T) base"]
      assms(2,3)
    by (simp add: getSectionKey_def)
qed


text \<open>
  Claim C4, as stated, has every input that ends inside a section header fail with
  \<^verbatim>\<open>UnexpectedEOF\<close>, in the extended form too. \<^verbatim>\<open>getExtendedSectionKey\<close> never
  looks at the end-of-input flag: it sees the synthetic newline and fails as for a line
  break, or finds no closing bracket.
\<close>

theorem extended_header_at_eof:
  \<open>Parse unicode_ascii (ascii ''[a '') = (Map.empty, 0, Some ErrSectionNewLine) \<and>
   Parse unicode_ascii (ascii ''[a "x"'') = (Map.empty, 1, Some ErrMissingClosingBracket)\<close>
  by (simp add: eval_simps)


text \<open>
  Claim C4, amended: when the driver, outside a comment, reads an opening bracket and the
  input ends while the plain section name is still being scanned (only name runes
  follow), the parse fails with \<^verbatim>\<open>UnexpectedEOF\<close>. Once whitespace has switched the
  header to the extended form, the end of the input is read as a newline: the parse fails
  with \<^verbatim>\<open>SectionNewLine\<close> when the input ends in the whitespace or before the closing
  quote, and with \<^verbatim>\<open>MissingClosingBracket\<close> when it ends right after the closing quote.
\<close>

theorem section_header_at_eof:
  "(section_runes T base \<longrightarrow>
      fst (snd (parse_loop T False cfg name (cf\<lparr>runes := LBRACK # base\<rparr>)))
        = Some ErrUnexpectedEOF) \<and>
   (section_runes T base \<and> \<not> eof cf \<and> isspace w \<and> list_all isspace ws \<longrightarrow>
      fst (snd (parse_loop T False cfg name (cf\<lparr>runes := LBRACK # base @ w # ws\<rparr>)))
        = Some ErrSectionNewLine) \<and>
   (section_runes T base \<and> \<not> eof cf \<and> isspace w \<and> list_all isspace ws \<and> DQUOTE \<notin> set q \<longrightarrow>
      fst (snd (parse_loop T False cfg name (cf\<lparr>runes := LBRACK # base @ w # ws @ DQUOTE # q\<rparr>)))
        = Some ErrSectionNewLine) \<and>
   (section_runes T base \<and> \<not> eof cf \<and> list_all isspace (w # ws) \<and> NL \<notin> set (w # ws) \<and>
    quoted_runes q \<longrightarrow>
      fst (snd (parse_loop T False cfg name
        (cf\<lparr>runes := LBRACK # base @ w # ws @ DQUOTE # q @ [DQUOTE]\<rparr>)))
        = Some ErrMissingClosingBracket)"
proof (intro conjI impI)
  assume "section_runes T base"
  then show "fst (snd (parse_loop T False cfg name (cf\<lparr>runes := LBRACK # base\<rparr>)))
      = Some ErrUnexpectedEOF"
    by (intro parse_loop_section_error getSectionKey_plain_eof)
next
  assume "section_runes T base \<and> \<not> eof cf \<and> isspace w \<and> list_all isspace ws"
  then show "fst (snd (parse_loop T False cfg name (cf\<lparr>runes := LBRACK # base @ w # ws\<rparr>)))
      = Some ErrSectionNewLine"
    by (intro parse_loop_section_error getSectionKey_ext_spaces) simp_all
next
  assume "section_runes T base \<and> \<not> eof cf \<and> isspace w \<and> list_all isspace ws \<and> DQUOTE \<notin> set q"
  then show "fst (snd (parse_loop T False cfg name
      (cf\<lparr>runes := LBRACK # base @ w # ws @ DQUOTE # q\<rparr>))) = Some ErrSectionNewLine"
    by (intro parse_loop_section_error getSectionKey_ext_unclosed) simp_all
next
  assume "section_runes T base \<and> \<not> eof cf \<and> list_all isspace (w # ws) \<and> NL \<notin> set (w # ws) \<and>
    quoted_runes q"
  then show "fst (snd (parse_loop T False cfg name
      (cf\<lparr>runes := LBRACK # base @ w # ws @ DQUOTE # q @ [DQUOTE]\<rparr>)))
      = Some ErrMissingClosingBracket"
    by (intro parse_loop_section_error getSectionKey_ext_closed_eof) simp_all
qed



theorem section_header_at_eof_witness:
  "section_runes unicode_ascii (ascii ''ab'') \<and> isspace SPACE \<and> list_all isspace [] \<and>
   DQUOTE \<notin> set (ascii ''x'') \<and> NL \<notin> set [SPACE] \<and> quoted_runes (ascii ''x'') \<and>
   fst (snd (parse_loop unicode_ascii False Map.empty []
     \<lparr>runes = LBRACK # ascii ''ab'', linenr = 1, eof = False\<rparr>)) = Some ErrUnexpectedEOF \<and>
   fst (snd (parse_loop unicode_ascii False Map.empty []
     \<lparr>runes = LBRACK # ascii ''ab'' @ [SPACE], linenr = 1, eof = False\<rparr>)) = Some ErrSectionNewLine \<and>
   fst (snd (parse_loop unicode_ascii False Map.empty []
     \<lparr>runes = LBRACK # ascii ''ab'' @ SPACE # DQUOTE # ascii ''x'', linenr = 1, eof = False\<rparr>))
     = Some ErrSectionNewLine \<and>
   fst (snd (parse_loop unicode_ascii False Map.empty []
     \<lparr>runes = LBRACK # ascii ''ab'' @ SPACE # DQUOTE # ascii ''x'' @ [DQUOTE], linenr = 1, eof = False\<rparr>))
     = Some ErrMissingClosingBracket"
  using section_header_at_eof [of unicode_ascii "ascii ''ab''" Map.empty "[]"
      "\<lparr>runes = [], linenr = 1, eof = False\<rparr>" SPACE "[]" "ascii ''x''"]
  by (simp add: section_runes_def quoted_runes_def ascii_def unicode_ascii_def isspace_def IsSpace_def
      iskeychar_def isalnum_def isalpha_def isnum_def)


text \<open>
  Claim C5, as stated, has a backslash before any character other than a quote, a
  backslash or a newline fail the parse. The code appends whatever follows the
  backslash: \<^verbatim>\<open>[a "x\qy"] b=1\<close> parses, with subsection \<^verbatim>\<open>xqy\<close>.
\<close>

theorem section_escape_accepts_any:
  \<open>Parse unicode_ascii (ascii ''[a "x'' @ [BSLASH] @ ascii ''qy"] b=1'')
     = (Map.empty(ascii ''a.xqy.b'' \<mapsto> ascii ''1''), 1, None)\<close>
  by (simp add: eval_simps)

text \<open>The section parser fails with no other error than those of a section header.\<close>

lemma getExtendedSectionKey_skip_error:
  "getExtendedSectionKey_skip c cf = (Inl e, cf') \<Longrightarrow> e = ErrSectionNewLine"
proof (induction c cf rule: getExtendedSectionKey_skip.induct)
  case (1 c cf)
  obtain c1 cf1 where n: "nextRune cf = (c1, cf1)" by fastforce
  show ?case
    using "1.prems" "1.IH" [OF _ n [symmetric] refl]
    by (simp add: getExtendedSectionKey_skip_unfold [OF n] split: if_splits)
qed

lemma getExtendedSectionKey_quoted_error:
  "getExtendedSectionKey_quoted name cf = (Inl e, cf') \<Longrightarrow> e = ErrSectionNewLine"
proof (induction "length (runes cf)" arbitrary: name cf rule: less_induct)
  case less
  obtain c cf1 where n: "nextRune cf = (c, cf1)" by fastforce
  obtain c2 cf2 where n2: "nextRune cf1 = (c2, cf2)" by fastforce
  show ?case
  proof (cases "c = NL")
    case True
    then show ?thesis
      using less.prems by (simp add: getExtendedSectionKey_quoted_unfold [OF n n2])
  next
    case False
    then have l1: "length (runes cf1) < length (runes cf)"
      using nextRune_consumes [OF n] nextRune_not_NL [OF n] by auto
    have l2: "length (runes cf2) < length (runes cf)"
      using l1 nextRune_length [OF n2] by simp
    show ?thesis
      using less.prems False less.hyps [OF l1] less.hyps [OF l2]
      by (simp add: getExtendedSectionKey_quoted_unfold [OF n n2] split: if_splits)
  qed
qed

lemma getExtendedSectionKey_error:
  assumes "getExtendedSectionKey name c cf = (Inl e, cf')"
  shows "e \<noteq> ErrInvalidEscapeSequence"
proof -
  obtain r1 cf1 where s: "getExtendedSectionKey_skip c cf = (r1, cf1)" by fastforce
  obtain r2 cf2 where q: "getExtendedSectionKey_quoted (name @ [DOT]) cf1 = (r2, cf2)" by fastforce
  obtain c3 cf3 where n: "nextRune cf2 = (c3, cf3)" by fastforce
  show ?thesis
    using assms getExtendedSectionKey_skip_error [of c cf e cf1]
      getExtendedSectionKey_quoted_error [of "name @ [DOT]" cf1 e cf2]
    by (auto simp add: getExtendedSectionKey_def s q n split: sum.splits if_splits)
qed

lemma getSectionKey_loop_error:
  "getSectionKey_loop T name cf = (Inl e, cf') \<Longrightarrow> e \<noteq> ErrInvalidEscapeSequence"
proof (induction T name cf rule: getSectionKey_loop.induct)
  case (1 T name cf)
  obtain c cf1 where n: "nextRune cf = (c, cf1)" by fastforce
  show ?case
    using "1.prems" "1.IH" [OF n [symmetric] refl] getExtendedSectionKey_error [of name c cf1 e cf']
    by (simp add: getSectionKey_loop_unfold [OF n] split: if_splits)
qed


text \<open>
  Claim C5, amended: inside the quoted part of an extended section header a backslash
  is dropped and the character after it is appended as it is, whatever it is (so a
  backslash before a quote or a backslash unescapes it); a backslash followed by a
  newline fails with \<^verbatim>\<open>SectionNewLine\<close>; and no section header ever fails with
  \<^verbatim>\<open>InvalidEscapeSequence\<close>.
\<close>

theorem section_escape:
  "(runes cf = BSLASH # c # rest \<and> c \<noteq> NL \<and> (c = CR \<longrightarrow> rest = [] \<or> hd rest \<noteq> NL) \<longrightarrow>
      getExtendedSectionKey_quoted name cf
        = getExtendedSectionKey_quoted (name @ [c]) (cf\<lparr>runes := rest\<rparr>)) \<and>
   (runes cf = BSLASH # NL # rest \<longrightarrow>
      getExtendedSectionKey_quoted name cf = (Inl ErrSectionNewLine, cf\<lparr>runes := rest\<rparr>)) \<and>
   fst (getSectionKey T cf) \<noteq> Inl ErrInvalidEscapeSequence"
proof (intro conjI impI)
  assume a: "runes cf = BSLASH # c # rest \<and> c \<noteq> NL \<and> (c = CR \<longrightarrow> rest = [] \<or> hd rest \<noteq> NL)"
  then have n: "nextRune cf = (BSLASH, cf\<lparr>runes := c # rest\<rparr>)"
    using nextRune_other [of cf BSLASH "c # rest"] by simp
  have n2: "nextRune (cf\<lparr>runes := c # rest\<rparr>) = (c, cf\<lparr>runes := rest\<rparr>)"
    using nextRune_single [of "cf\<lparr>runes := c # rest\<rparr>" c rest] a by simp
  show "getExtendedSectionKey_quoted name cf
      = getExtendedSectionKey_quoted (name @ [c]) (cf\<lparr>runes := rest\<rparr>)"
    using a by (simp add: getExtendedSectionKey_quoted_unfold [OF n n2])
next
  assume a: "runes cf = BSLASH # NL # rest"
  then have n: "nextRune cf = (BSLASH, cf\<lparr>runes := NL # rest\<rparr>)"
    using nextRune_other [of cf BSLASH "NL # rest"] by simp
  have n2: "nextRune (cf\<lparr>runes := NL # rest\<rparr>)
      = (NL, cf\<lparr>runes := rest, linenr := linenr cf + 1\<rparr>)"
    using nextRune_NL [of "cf\<lparr>runes := NL # rest\<rparr>" rest] by simp
  show "getExtendedSectionKey_quoted name cf = (Inl ErrSectionNewLine, cf\<lparr>runes := rest\<rparr>)"
    by (simp add: getExtendedSectionKey_quoted_unfold [OF n n2])
next
  show "fst (getSectionKey T cf) \<noteq> Inl ErrInvalidEscapeSequence"
    using getSectionKey_loop_error [of T "[]" cf]
    by (cases "getSectionKey_loop T [] cf") (auto simp add: getSectionKey_def)
qed


theorem section_escape_witness:
  \<open>getExtendedSectionKey_quoted (ascii ''a.x'')
       \<lparr>runes = BSLASH # ascii ''qy"]'', linenr = 1, eof = False\<rparr>
     = getExtendedSectionKey_quoted (ascii ''a.xq'') \<lparr>runes = ascii ''y"]'', linenr = 1, eof = False\<rparr> \<and>
   getExtendedSectionKey_quoted (ascii ''a.x'')
       \<lparr>runes = BSLASH # ascii ''qy"]'', linenr = 1, eof = False\<rparr>
     = (Inr (ascii ''a.xqy''), \<lparr>runes = ascii '']'', linenr = 1, eof = False\<rparr>) \<and>
   getExtendedSectionKey_quoted (ascii ''a.x'') \<lparr>runes = BSLASH # NL # ascii ''y"]'', linenr = 1, eof = False\<rparr>
     = (Inl ErrSectionNewLine, \<lparr>runes = ascii ''y"]'', linenr = 1, eof = False\<rparr>)\<close>
  using section_escape [of "\<lparr>runes = BSLASH # ascii ''qy\"]'', linenr = 1, eof = False\<rparr>" 113
      "ascii ''y\"]''" "ascii ''a.x''"]
    section_escape [of "\<lparr>runes = BSLASH # NL # ascii ''y\"]'', linenr = 1, eof = False\<rparr>" 0
      "ascii ''y\"]''" "ascii ''a.x''"]
  by (simp add: eval_simps)

section \<open>Whitespace in values\<close>

text \<open>
  A run of blanks: whitespace runes other than the newline (which ends the value).  A
  carriage return at the end of the run may belong to a following newline; the lemmas below
  hold in that case too.
\<close>

definition blank_run :: "rune list \<Rightarrow> bool" where
  "blank_run ws = list_all (\<lambda>c. isspace c \<and> c \<noteq> NL) ws"

lemma flush_replicate: "flush n v = v @ replicate n SPACE"
  by (induction n arbitrary: v) (simp_all add: replicate_app_Cons_same)

lemma parseValue_loop_step:
  assumes n: "nextRune cf = (c, cf1)" and c: "c \<noteq> BSLASH"
  shows "parseValue_loop q cm sp v cf = (if c = NL then
        (if q then (Inl ErrUnfinishedQuote, cf1\<lparr>linenr := linenr cf1 - 1\<rparr>)
         else (Inr v, cf1))
      else if cm then parseValue_loop q cm sp v cf1
      else if isspace c \<and> \<not> q then
        parseValue_loop q cm (if length v > 0 then sp + 1 else sp) v cf1
      else if \<not> q \<and> (c = SEMI \<or> c = HASH) then parseValue_loop q True sp v cf1
      else if c = DQUOTE then parseValue_loop (\<not> q) cm 0 (flush sp v) cf1
      else parseValue_loop q cm 0 (flush sp v @ [c]) cf1)"
proof -
  obtain c2 cf2 where n2: "nextRune cf1 = (c2, cf2)" by fastforce
  show ?thesis
    by (simp add: parseValue_loop_unfold [OF n n2] c)
qed

lemma isspace_not_special:
  "isspace c \<Longrightarrow> c \<noteq> BSLASH \<and> c \<noteq> DQUOTE \<and> c \<noteq> SEMI \<and> c \<noteq> HASH"
  by (auto simp add: isspace_def IsSpace_def)

lemma nextRune_blank:
  assumes "c \<noteq> NL" and "\<not> (c = CR \<and> ws = [] \<and> (\<exists>r. rest = NL # r))" and "blank_run ws"
  shows "nextRune (cf\<lparr>runes := c # ws @ rest\<rparr>) = (c, cf\<lparr>runes := ws @ rest\<rparr>)"
proof -
  have "c = CR \<longrightarrow> ws @ rest = [] \<or> hd (ws @ rest) \<noteq> NL"
    using assms by (cases ws; cases rest) (auto simp add: blank_run_def)
  then show ?thesis
    using nextRune_single [of "cf\<lparr>runes := c # ws @ rest\<rparr>" c "ws @ rest"] assms(1) by simp
qed

lemma parseValue_loop_leading:
  "blank_run ws \<Longrightarrow>
   parseValue_loop False False sp [] (cf\<lparr>runes := ws @ rest\<rparr>)
   = parseValue_loop False False sp [] (cf\<lparr>runes := rest\<rparr>)"
proof (induction ws)
  case Nil
  show ?case by simp
next
  case (Cons w ws)
  then have w: "isspace w" "w \<noteq> NL" and ws: "blank_run ws" by (simp_all add: blank_run_def)
  show ?case
  proof (cases "w = CR \<and> ws = [] \<and> (\<exists>r. rest = NL # r)")
    case True
    then obtain r where r: "rest = NL # r" by blast
    have 1: "nextRune (cf\<lparr>runes := CR # NL # r\<rparr>) = (NL, cf\<lparr>runes := r, linenr := linenr cf + 1\<rparr>)"
      using nextRune_CRLF [of "cf\<lparr>runes := CR # NL # r\<rparr>" r] by simp
    have 2: "nextRune (cf\<lparr>runes := NL # r\<rparr>) = (NL, cf\<lparr>runes := r, linenr := linenr cf + 1\<rparr>)"
      using nextRune_NL [of "cf\<lparr>runes := NL # r\<rparr>" r] by simp
    show ?thesis using True r
      by (simp add: parseValue_loop_step [OF 1] parseValue_loop_step [OF 2])
  next
    case False
    have n: "nextRune (cf\<lparr>runes := w # ws @ rest\<rparr>) = (w, cf\<lparr>runes := ws @ rest\<rparr>)"
      by (rule nextRune_blank [OF w(2) False ws])
    show ?thesis
      using w isspace_not_special [OF w(1)] Cons.IH [OF ws]
      by (simp add: parseValue_loop_step [OF n])
  qed
qed

lemma parseValue_loop_trailing:
  "blank_run ws \<Longrightarrow>
   parseValue_loop False False sp v (cf\<lparr>runes := ws @ NL # rest\<rparr>)
   = (Inr v, cf\<lparr>runes := rest, linenr := linenr cf + 1\<rparr>)"
proof (induction ws arbitrary: sp)
  case Nil
  have 2: "nextRune (cf\<lparr>runes := NL # rest\<rparr>) = (NL, cf\<lparr>runes := rest, linenr := linenr cf + 1\<rparr>)"
    using nextRune_NL [of "cf\<lparr>runes := NL # rest\<rparr>" rest] by simp
  show ?case by (simp add: parseValue_loop_step [OF 2])
next
  case (Cons w ws)
  then have w: "isspace w" "w \<noteq> NL" and ws: "blank_run ws" by (simp_all add: blank_run_def)
  show ?case
  proof (cases "w = CR \<and> ws = []")
    case True
    have 1: "nextRune (cf\<lparr>runes := CR # NL # rest\<rparr>) = (NL, cf\<lparr>runes := rest, linenr := linenr cf + 1\<rparr>)"
      using nextRune_CRLF [of "cf\<lparr>runes := CR # NL # rest\<rparr>" rest] by simp
    show ?thesis using True
      by (simp add: parseValue_loop_step [OF 1])
  next
    case False
    then have f: "\<not> (w = CR \<and> ws = [] \<and> (\<exists>r. NL # rest = NL # r))" by simp
    have n: "nextRune (cf\<lparr>runes := w # ws @ NL # rest\<rparr>) = (w, cf\<lparr>runes := ws @ NL # rest\<rparr>)"
      by (rule nextRune_blank [OF w(2) f ws])
    show ?thesis
      using w isspace_not_special [OF w(1)] Cons.IH [OF ws]
      by (simp add: parseValue_loop_step [OF n])
  qed
qed

lemma parseValue_loop_trailing_eof:
  "blank_run ws \<Longrightarrow>
   parseValue_loop False False sp v (cf\<lparr>runes := ws\<rparr>)
   = (Inr v, cf\<lparr>runes := [], eof := True\<rparr>)"
proof (induction ws arbitrary: sp)
  case Nil
  have 2: "nextRune (cf\<lparr>runes := []\<rparr>) = (NL, cf\<lparr>runes := [], eof := True\<rparr>)"
    using nextRune_Nil [of "cf\<lparr>runes := []\<rparr>"] by simp
  show ?case by (simp add: parseValue_loop_step [OF 2])
next
  case (Cons w ws)
  then have w: "isspace w" "w \<noteq> NL" and ws: "blank_run ws" by (simp_all add: blank_run_def)
  have f: "\<not> (w = CR \<and> ws = [] \<and> (\<exists>r. [] = NL # r))" by simp
  have n: "nextRune (cf\<lparr>runes := w # ws\<rparr>) = (w, cf\<lparr>runes := ws\<rparr>)"
    using nextRune_blank [OF w(2) f ws, of cf] by simp
  show ?case
    using w isspace_not_special [OF w(1)] Cons.IH [OF ws]
    by (simp add: parseValue_loop_step [OF n])
qed

lemma parseValue_loop_flush:
  assumes "nextRune cf = (c, cf1)" and "\<not> isspace c" and "c \<noteq> SEMI" and "c \<noteq> HASH"
  shows "parseValue_loop False False sp v cf = parseValue_loop False False 0 (flush sp v) cf"
proof -
  obtain c2 cf2 where n2: "nextRune cf1 = (c2, cf2)" by fastforce
  from assms(2) have "c \<noteq> NL" by auto
  then show ?thesis
    using assms(2-4) by (simp add: parseValue_loop_unfold [OF assms(1) n2])
qed

lemma parseValue_loop_internal:
  "blank_run ws \<Longrightarrow> v \<noteq> [] \<Longrightarrow> \<not> isspace c \<Longrightarrow> c \<noteq> SEMI \<Longrightarrow> c \<noteq> HASH \<Longrightarrow>
   parseValue_loop False False sp v (cf\<lparr>runes := ws @ c # rest\<rparr>)
   = parseValue_loop False False 0 (v @ replicate (sp + length ws) SPACE) (cf\<lparr>runes := c # rest\<rparr>)"
proof (induction ws arbitrary: sp)
  case Nil
  then have c: "c \<noteq> NL" "c \<noteq> CR" by auto
  have n: "nextRune (cf\<lparr>runes := c # rest\<rparr>) = (c, cf\<lparr>runes := rest\<rparr>)"
    using nextRune_other [of "cf\<lparr>runes := c # rest\<rparr>" c rest] c by simp
  show ?case
    using parseValue_loop_flush [OF n Nil.prems(3,4,5), of sp v] by (simp add: flush_replicate)
next
  case (Cons w ws)
  then have w: "isspace w" "w \<noteq> NL" and ws: "blank_run ws" by (simp_all add: blank_run_def)
  from Cons.prems have "c \<noteq> NL" by auto
  then have f: "\<not> (w = CR \<and> ws = [] \<and> (\<exists>r. c # rest = NL # r))" by simp
  have n: "nextRune (cf\<lparr>runes := w # ws @ c # rest\<rparr>) = (w, cf\<lparr>runes := ws @ c # rest\<rparr>)"
    by (rule nextRune_blank [OF w(2) f ws])
  show ?case
    using w isspace_not_special [OF w(1)] Cons.IH [OF ws Cons.prems(2-5), of "sp + 1"] Cons.prems(2)
    by (simp add: parseValue_loop_step [OF n])
qed

lemma parseValue_loop_quoted:
  "blank_run ws \<Longrightarrow>
   parseValue_loop True False 0 v (cf\<lparr>runes := ws @ rest\<rparr>)
   = parseValue_loop True False 0 (v @ ws) (cf\<lparr>runes := rest\<rparr>)"
proof (induction ws arbitrary: v)
  case Nil
  show ?case by simp
next
  case (Cons w ws)
  then have w: "isspace w" "w \<noteq> NL" and ws: "blank_run ws" by (simp_all add: blank_run_def)
  show ?case
  proof (cases "w = CR \<and> ws = [] \<and> (\<exists>r. rest = NL # r)")
    case True
    then obtain r where r: "rest = NL # r" by blast
    have 1: "nextRune (cf\<lparr>runes := CR # NL # r\<rparr>) = (NL, cf\<lparr>runes := r, linenr := linenr cf + 1\<rparr>)"
      using nextRune_CRLF [of "cf\<lparr>runes := CR # NL # r\<rparr>" r] by simp
    have 2: "nextRune (cf\<lparr>runes := NL # r\<rparr>) = (NL, cf\<lparr>runes := r, linenr := linenr cf + 1\<rparr>)"
      using nextRune_NL [of "cf\<lparr>runes := NL # r\<rparr>" r] by simp
    show ?thesis using True r
      by (simp add: parseValue_loop_step [OF 1] parseValue_loop_step [OF 2])
  next
    case False
    have n: "nextRune (cf\<lparr>runes := w # ws @ rest\<rparr>) = (w, cf\<lparr>runes := ws @ rest\<rparr>)"
      by (rule nextRune_blank [OF w(2) False ws])
    show ?thesis
      using w isspace_not_special [OF w(1)] Cons.IH [OF ws, of "v @ [w]"]
      by (simp add: parseValue_loop_step [OF n])
  qed
qed

lemma parseValue_loop_step_comment:
  assumes n: "nextRune cf = (c, cf1)" and c: "cm \<or> c \<noteq> BSLASH"
  shows "parseValue_loop q cm sp v cf = (if c = NL then
        (if q then (Inl ErrUnfinishedQuote, cf1\<lparr>linenr := linenr cf1 - 1\<rparr>)
         else (Inr v, cf1))
      else if cm then parseValue_loop q cm sp v cf1
      else if isspace c \<and> \<not> q then
        parseValue_loop q cm (if length v > 0 then sp + 1 else sp) v cf1
      else if \<not> q \<and> (c = SEMI \<or> c = HASH) then parseValue_loop q True sp v cf1
      else if c = DQUOTE then parseValue_loop (\<not> q) cm 0 (flush sp v) cf1
      else parseValue_loop q cm 0 (flush sp v @ [c]) cf1)"
proof -
  obtain c2 cf2 where n2: "nextRune cf1 = (c2, cf2)" by fastforce
  show ?thesis
    using c by (auto simp add: parseValue_loop_unfold [OF n n2])
qed

lemma nextRune_before_NL:
  assumes "x \<noteq> NL" and "NL \<notin> set xs" and "\<not> (x = CR \<and> xs = [])"
  shows "nextRune (cf\<lparr>runes := x # xs @ NL # rest\<rparr>) = (x, cf\<lparr>runes := xs @ NL # rest\<rparr>)"
proof -
  have "x = CR \<longrightarrow> xs @ NL # rest = [] \<or> hd (xs @ NL # rest) \<noteq> NL"
    using assms by (cases xs) auto
  then show ?thesis
    using nextRune_single [of "cf\<lparr>runes := x # xs @ NL # rest\<rparr>" x "xs @ NL # rest"] assms(1)
    by simp
qed

lemma nextRune_before_end:
  assumes "x \<noteq> NL" and "NL \<notin> set xs"
  shows "nextRune (cf\<lparr>runes := x # xs\<rparr>) = (x, cf\<lparr>runes := xs\<rparr>)"
proof -
  have "x = CR \<longrightarrow> xs = [] \<or> hd xs \<noteq> NL"
    using assms by (cases xs) auto
  then show ?thesis
    using nextRune_single [of "cf\<lparr>runes := x # xs\<rparr>" x xs] assms(1) by simp
qed

lemma parseValue_loop_comment:
  "NL \<notin> set cmt \<Longrightarrow>
   parseValue_loop False True sp v (cf\<lparr>runes := cmt @ NL # rest\<rparr>)
   = (Inr v, cf\<lparr>runes := rest, linenr := linenr cf + 1\<rparr>)"
proof (induction cmt)
  case Nil
  have 2: "nextRune (cf\<lparr>runes := NL # rest\<rparr>) = (NL, cf\<lparr>runes := rest, linenr := linenr cf + 1\<rparr>)"
    using nextRune_NL [of "cf\<lparr>runes := NL # rest\<rparr>" rest] by simp
  show ?case by (simp add: parseValue_loop_step_comment [OF 2])
next
  case (Cons x cmt)
  then have x: "x \<noteq> NL" and c: "NL \<notin> set cmt" by auto
  show ?case
  proof (cases "x = CR \<and> cmt = []")
    case True
    have 1: "nextRune (cf\<lparr>runes := CR # NL # rest\<rparr>) = (NL, cf\<lparr>runes := rest, linenr := linenr cf + 1\<rparr>)"
      using nextRune_CRLF [of "cf\<lparr>runes := CR # NL # rest\<rparr>" rest] by simp
    show ?thesis using True by (simp add: parseValue_loop_step_comment [OF 1])
  next
    case False
    note n = nextRune_before_NL [OF x c False, where cf = cf and rest = rest]
    show ?thesis
      using x Cons.IH [OF c] by (simp add: parseValue_loop_step_comment [OF n])
  qed
qed

lemma parseValue_loop_comment_eof:
  "NL \<notin> set cmt \<Longrightarrow> fst (parseValue_loop False True sp v (cf\<lparr>runes := cmt\<rparr>)) = Inr v"
proof (induction cmt)
  case Nil
  have 2: "nextRune (cf\<lparr>runes := []\<rparr>) = (NL, cf\<lparr>runes := [], eof := True\<rparr>)"
    using nextRune_Nil [of "cf\<lparr>runes := []\<rparr>"] by simp
  show ?case by (simp add: parseValue_loop_step_comment [OF 2])
next
  case (Cons x cmt)
  then have x: "x \<noteq> NL" and c: "NL \<notin> set cmt" by auto
  note n = nextRune_before_end [OF x c, where cf = cf]
  show ?case
    using x Cons.IH [OF c] by (simp add: parseValue_loop_step_comment [OF n])
qed

lemma parseValue_loop_blanks_comment:
  "blank_run ws \<Longrightarrow> h = SEMI \<or> h = HASH \<Longrightarrow>
   \<exists>sp'. parseValue_loop False False sp v (cf\<lparr>runes := ws @ h # rest\<rparr>)
     = parseValue_loop False True sp' v (cf\<lparr>runes := rest\<rparr>)"
proof (induction ws arbitrary: sp)
  case Nil
  then have h: "h \<noteq> NL" "h \<noteq> CR" "h \<noteq> BSLASH" "\<not> isspace h"
    by (auto simp add: isspace_def IsSpace_def)
  have n: "nextRune (cf\<lparr>runes := h # rest\<rparr>) = (h, cf\<lparr>runes := rest\<rparr>)"
    using nextRune_other [of "cf\<lparr>runes := h # rest\<rparr>" h rest] h by simp
  show ?case
    using Nil h by (auto simp add: parseValue_loop_step [OF n h(3)])
next
  case (Cons w ws)
  then have w: "isspace w" "w \<noteq> NL" and ws: "blank_run ws" by (simp_all add: blank_run_def)
  from Cons.prems have "h \<noteq> NL" by auto
  then have f: "\<not> (w = CR \<and> ws = [] \<and> (\<exists>r. h # rest = NL # r))" by simp
  have n: "nextRune (cf\<lparr>runes := w # ws @ h # rest\<rparr>) = (w, cf\<lparr>runes := ws @ h # rest\<rparr>)"
    by (rule nextRune_blank [OF w(2) f ws])
  show ?case
    using w isspace_not_special [OF w(1)] Cons.IH [OF ws Cons.prems(2)]
    by (simp add: parseValue_loop_step [OF n])
qed

text \<open>
  Claim C6, as stated, does not hold for every value: blanks that end the value are kept
  when a quote or a backslash follows them, since the pending blanks are flushed at every
  rune that is neither whitespace nor the start of a comment.  \<^verbatim>\<open>a = x   ""\<close> and
  \<^verbatim>\<open>a = x   \\<close> followed by an empty line both yield \<^verbatim>\<open>x\<close> with three spaces after it.
\<close>

theorem value_blanks_kept:
  "Parse unicode_ascii (ascii ''a = x   '' @ [DQUOTE, DQUOTE, NL])
     = ([ascii ''a'' \<mapsto> ascii ''x   ''], 2, None) \<and>
   Parse unicode_ascii (ascii ''a = x   '' @ [BSLASH, NL, NL])
     = ([ascii ''a'' \<mapsto> ascii ''x   ''], 3, None) \<and>
   parseValue \<lparr>runes = ascii '' x   '' @ [DQUOTE, DQUOTE, NL], linenr = 1, eof = False\<rparr>
     = (Inr (ascii ''x   ''), \<lparr>runes = [], linenr = 2, eof = False\<rparr>)"
  by (simp add: eval_simps)

text \<open>
  Claim C6, amended.  Let \<open>ws\<close> be a run of whitespace runes other than the newline.
  Outside quotes: (1) while the value is still empty the run contributes nothing (also after
  an empty pair of quotes); (2) before the newline that ends the value, (3) before the end of
  the input, and (4) before a comment, which runs from \<^verbatim>\<open>;\<close> or \<^verbatim>\<open>#\<close> to the end
  of the line or of the input, the run and the blanks counted so far contribute nothing: the
  value is returned as it is; (5) after a value rune and before a rune \<open>c\<close> that is neither
  whitespace nor the start of a comment (a value rune, a quote or a backslash), the run
  contributes exactly \<open>length ws\<close> space runes: the loop goes on at \<open>c\<close> as if they had
  been appended.  (6) In quote mode the runes of the run are appended to the value as they
  are.
\<close>

theorem value_whitespace:
  "blank_run ws \<Longrightarrow>
   parseValue_loop False False 0 [] (cf\<lparr>runes := ws @ rest\<rparr>)
     = parseValue_loop False False 0 [] (cf\<lparr>runes := rest\<rparr>) \<and>
   parseValue_loop False False sp v (cf\<lparr>runes := ws @ NL # rest\<rparr>)
     = (Inr v, cf\<lparr>runes := rest, linenr := linenr cf + 1\<rparr>) \<and>
   fst (parseValue_loop False False sp v (cf\<lparr>runes := ws\<rparr>)) = Inr v \<and>
   ((h = SEMI \<or> h = HASH) \<and> NL \<notin> set cmt \<longrightarrow>
      parseValue_loop False False sp v (cf\<lparr>runes := ws @ h # cmt @ NL # rest\<rparr>)
        = (Inr v, cf\<lparr>runes := rest, linenr := linenr cf + 1\<rparr>) \<and>
      fst (parseValue_loop False False sp v (cf\<lparr>runes := ws @ h # cmt\<rparr>)) = Inr v) \<and>
   (v \<noteq> [] \<and> \<not> isspace c \<and> c \<noteq> SEMI \<and> c \<noteq> HASH \<longrightarrow>
      parseValue_loop False False 0 v (cf\<lparr>runes := ws @ c # rest\<rparr>)
      = parseValue_loop False False 0 (v @ replicate (length ws) SPACE) (cf\<lparr>runes := c # rest\<rparr>)) \<and>
   parseValue_loop True False 0 v (cf\<lparr>runes := ws @ rest\<rparr>)
     = parseValue_loop True False 0 (v @ ws) (cf\<lparr>runes := rest\<rparr>)"
proof (intro conjI impI)
  assume ws: "blank_run ws"
  show "parseValue_loop False False 0 [] (cf\<lparr>runes := ws @ rest\<rparr>)
     = parseValue_loop False False 0 [] (cf\<lparr>runes := rest\<rparr>)"
    by (rule parseValue_loop_leading [OF ws])
  show "parseValue_loop False False sp v (cf\<lparr>runes := ws @ NL # rest\<rparr>)
     = (Inr v, cf\<lparr>runes := rest, linenr := linenr cf + 1\<rparr>)"
    by (rule parseValue_loop_trailing [OF ws])
  show "fst (parseValue_loop False False sp v (cf\<lparr>runes := ws\<rparr>)) = Inr v"
    by (simp add: parseValue_loop_trailing_eof [OF ws])
  show "parseValue_loop True False 0 v (cf\<lparr>runes := ws @ rest\<rparr>)
     = parseValue_loop True False 0 (v @ ws) (cf\<lparr>runes := rest\<rparr>)"
    by (rule parseValue_loop_quoted [OF ws])
  {
    assume a: "v \<noteq> [] \<and> \<not> isspace c \<and> c \<noteq> SEMI \<and> c \<noteq> HASH"
    show "parseValue_loop False False 0 v (cf\<lparr>runes := ws @ c # rest\<rparr>)
      = parseValue_loop False False 0 (v @ replicate (length ws) SPACE) (cf\<lparr>runes := c # rest\<rparr>)"
      using parseValue_loop_internal [OF ws, where v = v and c = c and sp = 0 and cf = cf and rest = rest] a by simp
  }
  {
    assume a: "(h = SEMI \<or> h = HASH) \<and> NL \<notin> set cmt"
    then have h: "h = SEMI \<or> h = HASH" and c: "NL \<notin> set cmt" by simp_all
    from parseValue_loop_blanks_comment [OF ws h, where sp = sp and v = v and cf = cf and rest = "cmt @ NL # rest"]
    show "parseValue_loop False False sp v (cf\<lparr>runes := ws @ h # cmt @ NL # rest\<rparr>)
        = (Inr v, cf\<lparr>runes := rest, linenr := linenr cf + 1\<rparr>)"
      by (auto simp add: parseValue_loop_comment [OF c])
    from parseValue_loop_blanks_comment [OF ws h, where sp = sp and v = v and cf = cf and rest = cmt]
    show "fst (parseValue_loop False False sp v (cf\<lparr>runes := ws @ h # cmt\<rparr>)) = Inr v"
      by (auto simp add: parseValue_loop_comment_eof [OF c])
  }
qed

theorem value_whitespace_witness:
  "blank_run [SPACE, TAB, SPACE] \<and>
   parseValue_loop False False 0 [] \<lparr>runes = [SPACE, TAB, SPACE] @ ascii ''x'' @ [NL], linenr = 1, eof = False\<rparr>
     = (Inr (ascii ''x''), \<lparr>runes = [], linenr = 2, eof = False\<rparr>) \<and>
   parseValue_loop False False 2 (ascii ''x'') \<lparr>runes = [SPACE, TAB, SPACE] @ NL # ascii ''y'', linenr = 1, eof = False\<rparr>
     = (Inr (ascii ''x''), \<lparr>runes = ascii ''y'', linenr = 2, eof = False\<rparr>) \<and>
   fst (parseValue_loop False False 2 (ascii ''x'') \<lparr>runes = [SPACE, TAB, SPACE], linenr = 1, eof = False\<rparr>)
     = Inr (ascii ''x'') \<and>
   NL \<notin> set (ascii '' c'') \<and>
   parseValue_loop False False 2 (ascii ''x'')
       \<lparr>runes = [SPACE, TAB, SPACE] @ SEMI # ascii '' c'' @ NL # ascii ''y'', linenr = 1, eof = False\<rparr>
     = (Inr (ascii ''x''), \<lparr>runes = ascii ''y'', linenr = 2, eof = False\<rparr>) \<and>
   fst (parseValue_loop False False 2 (ascii ''x'')
       \<lparr>runes = [SPACE, TAB, SPACE] @ SEMI # ascii '' c'', linenr = 1, eof = False\<rparr>)
     = Inr (ascii ''x'') \<and>
   ascii ''x'' \<noteq> [] \<and> \<not> isspace 121 \<and>
   parseValue_loop False False 0 (ascii ''x'') \<lparr>runes = [SPACE, TAB, SPACE] @ 121 # [NL], linenr = 1, eof = False\<rparr>
     = (Inr (ascii ''x   y''), \<lparr>runes = [], linenr = 2, eof = False\<rparr>) \<and>
   parseValue_loop True False 0 (ascii ''x'') \<lparr>runes = [SPACE, TAB, SPACE] @ 34 # [NL], linenr = 1, eof = False\<rparr>
     = (Inr (ascii ''x'' @ [SPACE, TAB, SPACE]), \<lparr>runes = [], linenr = 2, eof = False\<rparr>)"
  using value_whitespace [where ws = "[SPACE, TAB, SPACE]" and cf = "\<lparr>runes = [], linenr = 1, eof = False\<rparr>"
      and rest = "ascii ''x'' @ [NL]" and sp = 2 and v = "ascii ''x''" and c = 121 and h = SEMI and cmt = "ascii '' c''"]
    value_whitespace [where ws = "[SPACE, TAB, SPACE]" and cf = "\<lparr>runes = [], linenr = 1, eof = False\<rparr>"
      and rest = "ascii ''y''" and sp = 2 and v = "ascii ''x''" and c = 121 and h = SEMI and cmt = "ascii '' c''"]
    value_whitespace [where ws = "[SPACE, TAB, SPACE]" and cf = "\<lparr>runes = [], linenr = 1, eof = False\<rparr>"
      and rest = "[NL]" and sp = 2 and v = "ascii ''x''" and c = 121 and h = SEMI and cmt = "ascii '' c''"]
    value_whitespace [where ws = "[SPACE, TAB, SPACE]" and cf = "\<lparr>runes = [], linenr = 1, eof = False\<rparr>"
      and rest = "34 # [NL]" and sp = 2 and v = "ascii ''x''" and c = 121 and h = SEMI and cmt = "ascii '' c''"]
  by (simp add: eval_simps blank_run_def)

section \<open>Serialising a mapping and parsing it again\<close>

text \<open>
  The repository has no serialiser. The one below follows the wording of the specification:
  one line \<^verbatim>\<open>key = value\<close> per entry, the key in its dotted form and the value verbatim.
  A mapping is given by the list of its entries.
\<close>

definition serialize :: "(gostring \<times> gostring) list \<Rightarrow> gostring" where
  "serialize es = concat (map (\<lambda>(k, v). k @ ascii '' = '' @ v @ [NL]) es)"

definition plain_key :: "unicode \<Rightarrow> gostring \<Rightarrow> bool" where
  "plain_key T k =
     (case k of
        [] \<Rightarrow> False
      | c # ks \<Rightarrow>
          isalpha T c \<and> lower T c = c \<and> \<not> isspace c \<and> c \<noteq> HASH \<and> c \<noteq> SEMI \<and>
          c \<noteq> LBRACK \<and>
          list_all (\<lambda>x. iskeychar T x \<and> \<not> isspace x \<and> lower T x = x) ks)"

definition plain_rune :: "rune \<Rightarrow> bool" where
  "plain_rune c = (\<not> isspace c \<and> c \<noteq> SEMI \<and> c \<noteq> HASH \<and> c \<noteq> BSLASH \<and> c \<noteq> DQUOTE)"

definition plain_value :: "gostring \<Rightarrow> bool" where
  "plain_value v =
     (list_all (\<lambda>c. c = SPACE \<or> plain_rune c) v \<and>
      (case v of [] \<Rightarrow> True | c # cs \<Rightarrow> c \<noteq> SPACE \<and> last v \<noteq> SPACE))"

lemma parseValue_loop_plain:
  "list_all (\<lambda>c. c = SPACE \<or> plain_rune c) u \<Longrightarrow> u = [] \<or> last u \<noteq> SPACE \<Longrightarrow>
   acc \<noteq> [] \<or> u = [] \<or> hd u \<noteq> SPACE \<Longrightarrow>
   parseValue_loop False False sp acc (cf\<lparr>runes := u @ NL # rest\<rparr>)
   = (Inr (if u = [] then acc else acc @ replicate sp SPACE @ u),
      cf\<lparr>runes := rest, linenr := linenr cf + 1\<rparr>)"
proof (induction u arbitrary: sp acc)
  case Nil
  have 2: "nextRune (cf\<lparr>runes := NL # rest\<rparr>) = (NL, cf\<lparr>runes := rest, linenr := linenr cf + 1\<rparr>)"
    using nextRune_NL [of "cf\<lparr>runes := NL # rest\<rparr>" rest] by simp
  show ?case by (simp add: parseValue_loop_step [OF 2])
next
  case (Cons x u)
  have all: "list_all (\<lambda>c. c = SPACE \<or> plain_rune c) u" using Cons.prems(1) by simp
  show ?case
  proof (cases "x = SPACE")
    case True
    with Cons.prems have acc: "acc \<noteq> []" and u: "u \<noteq> []" "last u \<noteq> SPACE"
      by (auto split: if_splits)
    have n: "nextRune (cf\<lparr>runes := SPACE # u @ NL # rest\<rparr>) = (SPACE, cf\<lparr>runes := u @ NL # rest\<rparr>)"
      using nextRune_other [of "cf\<lparr>runes := SPACE # u @ NL # rest\<rparr>" SPACE "u @ NL # rest"] by simp
    have "parseValue_loop False False (sp + 1) acc (cf\<lparr>runes := u @ NL # rest\<rparr>)
        = (Inr (acc @ replicate (sp + 1) SPACE @ u), cf\<lparr>runes := rest, linenr := linenr cf + 1\<rparr>)"
      using Cons.IH [OF all, of acc "sp + 1"] u acc by simp
    then show ?thesis
      using True acc by (simp add: parseValue_loop_step [OF n] replicate_app_Cons_same)
  next
    case False
    with Cons.prems(1) have p: "plain_rune x" by simp
    then have x: "x \<noteq> NL" "x \<noteq> CR" "x \<noteq> BSLASH" by (auto simp add: plain_rune_def)
    have n: "nextRune (cf\<lparr>runes := x # u @ NL # rest\<rparr>) = (x, cf\<lparr>runes := u @ NL # rest\<rparr>)"
      using nextRune_other [of "cf\<lparr>runes := x # u @ NL # rest\<rparr>" x "u @ NL # rest"] x by simp
    have l: "u = [] \<or> last u \<noteq> SPACE" using Cons.prems(2) by (cases u) auto
    have "parseValue_loop False False 0 (flush sp acc @ [x]) (cf\<lparr>runes := u @ NL # rest\<rparr>)
        = (Inr (if u = [] then flush sp acc @ [x] else (flush sp acc @ [x]) @ replicate 0 SPACE @ u),
           cf\<lparr>runes := rest, linenr := linenr cf + 1\<rparr>)"
      by (rule Cons.IH [OF all l]) simp
    then show ?thesis
      using p x by (simp add: parseValue_loop_step [OF n x(3)] plain_rune_def flush_replicate)
  qed
qed

lemma getValue_name_plain:
  "list_all (\<lambda>x. iskeychar T x \<and> \<not> isspace x \<and> lower T x = x) ks \<Longrightarrow> \<not> eof cf \<Longrightarrow>
   \<not> iskeychar T s \<Longrightarrow> s \<noteq> NL \<Longrightarrow> s \<noteq> CR \<Longrightarrow>
   getValue_name T name (cf\<lparr>runes := ks @ s # rest\<rparr>) = (s, name @ ks, cf\<lparr>runes := rest\<rparr>)"
proof (induction ks arbitrary: name)
  case Nil
  have n: "nextRune (cf\<lparr>runes := s # rest\<rparr>) = (s, cf\<lparr>runes := rest\<rparr>)"
    using nextRune_other [of "cf\<lparr>runes := s # rest\<rparr>" s rest] Nil by simp
  show ?case using Nil by (simp add: getValue_name_unfold [OF n])
next
  case (Cons x ks)
  then have x: "iskeychar T x" "x \<noteq> NL" "x \<noteq> CR" "lower T x = x" by auto
  have n: "nextRune (cf\<lparr>runes := x # ks @ s # rest\<rparr>) = (x, cf\<lparr>runes := ks @ s # rest\<rparr>)"
    using nextRune_other [of "cf\<lparr>runes := x # ks @ s # rest\<rparr>" x "ks @ s # rest"] x by simp
  show ?case
    using Cons.IH [of "name @ [x]"] Cons.prems x by (simp add: getValue_name_unfold [OF n])
qed

lemma getValue_plain:
  assumes ks: "list_all (\<lambda>x. iskeychar T x \<and> \<not> isspace x \<and> lower T x = x) ks"
    and e: "\<not> eof cf" and s: "\<not> iskeychar T SPACE" and v: "plain_value v"
  shows "getValue T name (cf\<lparr>runes := ks @ ascii '' = '' @ v @ NL # rest\<rparr>)
     = (name @ ks, Inr v, cf\<lparr>runes := rest, linenr := linenr cf + 1\<rparr>)"
proof -
  have a: "getValue_name T name (cf\<lparr>runes := ks @ SPACE # EQUALS # SPACE # v @ NL # rest\<rparr>)
      = (SPACE, name @ ks, cf\<lparr>runes := EQUALS # SPACE # v @ NL # rest\<rparr>)"
    by (rule getValue_name_plain [OF ks e s]) simp_all
  have n1: "nextRune (cf\<lparr>runes := EQUALS # SPACE # v @ NL # rest\<rparr>)
      = (EQUALS, cf\<lparr>runes := SPACE # v @ NL # rest\<rparr>)"
    using nextRune_other [of "cf\<lparr>runes := EQUALS # SPACE # v @ NL # rest\<rparr>" EQUALS] by simp
  have n2: "nextRune (cf\<lparr>runes := SPACE # v @ NL # rest\<rparr>) = (SPACE, cf\<lparr>runes := v @ NL # rest\<rparr>)"
    using nextRune_other [of "cf\<lparr>runes := SPACE # v @ NL # rest\<rparr>" SPACE] by simp
  have n3: "nextRune (cf\<lparr>runes := v @ NL # rest\<rparr>) = (x, y) \<Longrightarrow> True" for x y by simp
  have b: "getValue_blanks SPACE (cf\<lparr>runes := EQUALS # SPACE # v @ NL # rest\<rparr>)
      = (EQUALS, cf\<lparr>runes := SPACE # v @ NL # rest\<rparr>)"
    by (simp add: getValue_blanks_unfold [OF n1] getValue_blanks_unfold [OF n2])
  have "parseValue_loop False False 0 [] (cf\<lparr>runes := v @ NL # rest\<rparr>)
      = (Inr (if v = [] then [] else [] @ replicate 0 SPACE @ v), cf\<lparr>runes := rest, linenr := linenr cf + 1\<rparr>)"
    using v by (intro parseValue_loop_plain) (auto simp add: plain_value_def split: list.splits)
  then have p: "parseValue (cf\<lparr>runes := SPACE # v @ NL # rest\<rparr>)
      = (Inr v, cf\<lparr>runes := rest, linenr := linenr cf + 1\<rparr>)"
    by (simp add: parseValue_def parseValue_loop_step [OF n2])
  show ?thesis
    by (simp add: getValue_def ascii_def a b p)
qed

lemma parse_loop_entry:
  assumes k: "plain_key T k" and e: "\<not> eof cf" and s: "\<not> iskeychar T SPACE" and v: "plain_value v"
  shows "parse_loop T False cfg [] (cf\<lparr>runes := k @ ascii '' = '' @ v @ NL # rest\<rparr>)
     = parse_loop T False (cfg(k \<mapsto> v)) [] (cf\<lparr>runes := rest, linenr := linenr cf + 1\<rparr>)"
proof -
  from k obtain c ks where kk: "k = c # ks" and c: "isalpha T c" "\<not> isspace c" "c \<noteq> HASH"
      "c \<noteq> SEMI" "c \<noteq> LBRACK"
    and ks: "list_all (\<lambda>x. iskeychar T x \<and> \<not> isspace x \<and> lower T x = x) ks"
    by (auto simp add: plain_key_def split: list.splits)
  from c(2) have c': "c \<noteq> NL" "c \<noteq> CR" by auto
  have n: "nextRune (cf\<lparr>runes := c # ks @ ascii '' = '' @ v @ NL # rest\<rparr>)
      = (c, cf\<lparr>runes := ks @ ascii '' = '' @ v @ NL # rest\<rparr>)"
    using nextRune_other [of "cf\<lparr>runes := c # ks @ ascii '' = '' @ v @ NL # rest\<rparr>" c] c' by simp
  have g: "getValue T ([] @ [c]) (cf\<lparr>runes := ks @ ascii '' = '' @ v @ NL # rest\<rparr>)
     = ([c] @ ks, Inr v, cf\<lparr>runes := rest, linenr := linenr cf + 1\<rparr>)"
    using getValue_plain [OF ks e s v, of "[c]" rest] by simp
  show ?thesis
    using c c' g by (simp add: kk parse_loop_unfold [OF n])
qed

lemma parse_loop_serialize:
  "list_all (\<lambda>(k, v). plain_key T k \<and> plain_value v) es \<Longrightarrow> \<not> eof cf \<Longrightarrow>
   \<not> iskeychar T SPACE \<Longrightarrow>
   parse_loop T False cfg [] (cf\<lparr>runes := serialize es\<rparr>)
   = (cfg ++ map_of (rev es), None, cf\<lparr>runes := [], linenr := linenr cf + length es, eof := True\<rparr>)"
proof (induction es arbitrary: cfg cf)
  case Nil
  have n: "nextRune (cf\<lparr>runes := []\<rparr>) = (NL, cf\<lparr>runes := [], eof := True\<rparr>)"
    using nextRune_Nil [of "cf\<lparr>runes := []\<rparr>"] by simp
  show ?case by (simp add: serialize_def parse_loop_unfold [OF n])
next
  case (Cons e es)
  obtain k v where e: "e = (k, v)" by fastforce
  with Cons.prems have k: "plain_key T k" and v: "plain_value v"
    and es: "list_all (\<lambda>(k, v). plain_key T k \<and> plain_value v) es" by auto
  have s: "serialize (e # es) = k @ ascii '' = '' @ v @ NL # serialize es"
    by (simp add: e serialize_def)
  have eq: "cf\<lparr>runes := serialize es, linenr := linenr cf + 1\<rparr>
      = (cf\<lparr>linenr := linenr cf + 1\<rparr>)\<lparr>runes := serialize es\<rparr>"
    by (cases cf) simp
  have "parse_loop T False cfg [] (cf\<lparr>runes := serialize (e # es)\<rparr>)
     = parse_loop T False (cfg(k \<mapsto> v)) [] (cf\<lparr>runes := serialize es, linenr := linenr cf + 1\<rparr>)"
    unfolding s by (rule parse_loop_entry [OF k Cons.prems(2,3) v])
  also have "\<dots> = parse_loop T False (cfg(k \<mapsto> v)) [] ((cf\<lparr>linenr := linenr cf + 1\<rparr>)\<lparr>runes := serialize es\<rparr>)"
    by (simp only: eq)
  also have "\<dots> = (cfg(k \<mapsto> v) ++ map_of (rev es), None,
        (cf\<lparr>linenr := linenr cf + 1\<rparr>)\<lparr>runes := [],
           linenr := linenr (cf\<lparr>linenr := linenr cf + 1\<rparr>) + length es, eof := True\<rparr>)"
    using Cons.prems by (intro Cons.IH [OF es]) simp_all
  also have "\<dots> = (cfg ++ map_of (rev (e # es)), None,
        cf\<lparr>runes := [], linenr := linenr cf + length (e # es), eof := True\<rparr>)"
    by (simp add: e map_add_upd_left)
  finally show ?case .
qed

lemma map_of_rev_distinct:
  "distinct (map fst es) \<Longrightarrow> map_of (rev es) = map_of es"
  by (induction es) (auto simp add: map_add_def fun_eq_iff split: option.splits dest: map_of_SomeD intro: rev_image_eqI)

text \<open>
  Claim C1, as stated, does not hold.  A key under a section has a dot, and a dot is not a
  key character at statement position: the mapping of \<^verbatim>\<open>[a]\<close>, \<^verbatim>\<open>b=1\<close> serialises
  to \<^verbatim>\<open>a.b = 1\<close>, which fails with \<open>ErrInvalidKeyChar\<close>.  A value that owes a leading
  blank to quotes loses it when it is written back verbatim.
\<close>

theorem roundtrip_section_key:
  "Parse unicode_ascii (ascii ''[a]'' @ NL # ascii ''b=1'')
     = ([ascii ''a.b'' \<mapsto> ascii ''1''], 2, None) \<and>
   Parse unicode_ascii (serialize [(ascii ''a.b'', ascii ''1'')])
     = (Map.empty, 1, Some ErrInvalidKeyChar) \<and>
   Parse unicode_ascii (ascii ''a = '' @ [DQUOTE] @ ascii '' x'' @ [DQUOTE])
     = ([ascii ''a'' \<mapsto> ascii '' x''], 1, None) \<and>
   Parse unicode_ascii (serialize [(ascii ''a'', ascii '' x'')])
     = ([ascii ''a'' \<mapsto> ascii ''x''], 2, None)"
  by (simp add: eval_simps serialize_def)

text \<open>
  Claim C1, amended.  Take a mapping whose keys have no section part and are in lower case (a
  letter, then key characters, each of them left unchanged by lower-casing) and whose values
  are plain (runes that are neither whitespace nor one of \<^verbatim>\<open>; # \ "\<close>, separated by space
  characters, with no space at either end).  Serialising it and parsing the result succeeds
  and yields that mapping.  The hypothesis on the tables says that the space is neither a
  letter nor a number.
\<close>

theorem roundtrip_plain:
  "distinct (map fst es) \<Longrightarrow> list_all (\<lambda>(k, v). plain_key T k \<and> plain_value v) es \<Longrightarrow>
   \<not> iskeychar T SPACE \<Longrightarrow>
   fst (Parse T (serialize es)) = map_of es \<and> snd (snd (Parse T (serialize es))) = None"
  using parse_loop_serialize [of T es "\<lparr>runes = [], linenr = 1, eof = False\<rparr>" Map.empty]
  by (simp add: Parse_def map_of_rev_distinct)

theorem roundtrip_plain_witness:
  "distinct (map fst [(ascii ''name'', ascii ''x  y''), (ascii ''core-2'', [])]) \<and>
   list_all (\<lambda>(k, v). plain_key unicode_ascii k \<and> plain_value v)
     [(ascii ''name'', ascii ''x  y''), (ascii ''core-2'', [])] \<and>
   \<not> iskeychar unicode_ascii SPACE \<and>
   fst (Parse unicode_ascii (serialize [(ascii ''name'', ascii ''x  y''), (ascii ''core-2'', [])]))
     = map_of [(ascii ''name'', ascii ''x  y''), (ascii ''core-2'', [])] \<and>
   snd (snd (Parse unicode_ascii (serialize [(ascii ''name'', ascii ''x  y''), (ascii ''core-2'', [])])))
     = None"
  using roundtrip_plain [of "[(ascii ''name'', ascii ''x  y''), (ascii ''core-2'', [])]" unicode_ascii]
  by (simp add: plain_key_def plain_value_def plain_rune_def ascii_def isspace_def IsSpace_def
      iskeychar_def isalnum_def isalpha_def isnum_def lower_def unicode_ascii_def)

section \<open>What a failed parse returns\<close>

text \<open>
  The input of a cursor cut after its first \<open>k\<close> runes.  A sub-parser that stops with input
  left has read nothing beyond what it consumed, apart from the rune that follows a carriage
  return; so it runs in the same way on the cut input, as long as the cut lies at or after
  the point where it stops.
\<close>

definition cut_input :: "nat \<Rightarrow> parser \<Rightarrow> parser" where
  "cut_input k cf = cf\<lparr>runes := take k (runes cf)\<rparr>"

lemma cut_input_simps [simp]:
  "runes (cut_input k cf) = take k (runes cf)" "eof (cut_input k cf) = eof cf"
  "linenr (cut_input k cf) = linenr cf"
  "cut_input k (cf\<lparr>linenr := l\<rparr>) = (cut_input k cf)\<lparr>linenr := l\<rparr>"
  by (simp_all add: cut_input_def)













text \<open>
  The runes left in a cursor are a final part of the runes it started from: no sub-parser
  gives input back or rewrites it.
\<close>

definition is_rest :: "parser \<Rightarrow> parser \<Rightarrow> bool" where
  "is_rest cf' cf \<longleftrightarrow> runes cf' = drop (length (runes cf) - length (runes cf')) (runes cf)"


lemma is_rest_refl [simp]: "is_rest cf cf" "is_rest (cf\<lparr>linenr := l\<rparr>) cf" "is_rest (cf\<lparr>eof := b\<rparr>) cf"
  by (simp_all add: is_rest_def)

lemma is_rest_linenr [simp]: "is_rest (cf'\<lparr>linenr := l\<rparr>) cf = is_rest cf' cf"
  by (simp add: is_rest_def)















section \<open>Termination\<close>

text \<open>
  Claim C10.  The parse terminates on every finite input.  Each of the seven loops of the
  source is a recursive function whose recursion was shown well founded above, with the
  number of remaining runes as the measure: every argument is in the domain of every loop.
  The measure decreases because one call of \<open>nextRune\<close> either finds the input exhausted
  (and then reports the synthetic newline with the end flag set, on which every loop
  returns) or leaves strictly fewer runes.
\<close>

theorem parse_terminates:
  "parse_loop_dom (T, comment, cfg, name, cf)
   \<and> getSectionKey_loop_dom (T, name, cf)
   \<and> getExtendedSectionKey_skip_dom (c, cf)
   \<and> getExtendedSectionKey_quoted_dom (name, cf)
   \<and> getValue_name_dom (T, name, cf)
   \<and> getValue_blanks_dom (c, cf)
   \<and> parseValue_loop_dom (quote, comment, space, val, cf)
   \<and> ((runes cf = [] \<and> nextRune cf = (NL, cf\<lparr>eof := True\<rparr>))
        \<or> length (runes (snd (nextRune cf))) < length (runes cf))"
proof -
  have "(runes cf = [] \<and> nextRune cf = (NL, cf\<lparr>eof := True\<rparr>))
        \<or> length (runes (snd (nextRune cf))) < length (runes cf)"
  proof (cases "runes cf")
    case Nil
    then show ?thesis by (simp add: nextRune_def)
  next
    case (Cons a list)
    then show ?thesis by (auto simp add: nextRune_def Let_def split: if_splits)
  qed
  then show ?thesis
    using parse_loop_total getSectionKey_loop_total getExtendedSectionKey_skip_total
      getExtendedSectionKey_quoted_total getValue_name_total getValue_blanks_total
      parseValue_loop_total
    by blast
qed

end
